theory Spec2Isabelle
  imports Main "HOL-Library.Word"
begin

unbundle bit_operations_syntax

section \<open>Machine types, memory and run-time failures\<close>

text \<open>
  The embedding follows \<^verbatim>\<open>src/lib/deflate_decompress.cpp\<close> in its 64-bit configuration:
  \<^verbatim>\<open>machine_word_t\<close> is a 64-bit word, so \<^verbatim>\<open>WORDBITS = 64\<close> and \<^verbatim>\<open>WORDBYTES = 8\<close>.
  Raw memory behind a pointer is a function from byte offsets to bytes; the size of the
  allocation is kept beside it and every access of the window is checked against it.
  A failed \<^verbatim>\<open>assert\<close> (the file forces the debugging variant, which prints and calls
  \<^verbatim>\<open>abort\<close>) and an access outside an allocation are values of type \<open>failure\<close>.
\<close>

type_synonym byte = "8 word"
type_synonym u16 = "16 word"
type_synonym u32 = "32 word"
type_synonym machine_word_t = "64 word"
type_synonym bitbuf_t = machine_word_t
type_synonym mem = "nat \<Rightarrow> byte"

datatype failure = Assertion_failed string | Out_of_bounds

type_synonym 'a outcome = "failure + 'a"

definition bnd :: "'a outcome \<Rightarrow> ('a \<Rightarrow> 'b outcome) \<Rightarrow> 'b outcome" where
  "bnd m f = (case m of Inl e \<Rightarrow> Inl e | Inr x \<Rightarrow> f x)"

definition assertion :: "string \<Rightarrow> bool \<Rightarrow> unit outcome" where
  "assertion expr ok = (if ok then Inr () else Inl (Assertion_failed expr))"

definition WORDBYTES :: nat where
  "WORDBYTES = 8"

text \<open>
  Modelled from the spec: \<^verbatim>\<open>unaligned.h\<close> is not among the sources. The spec describes the
  refill as reading a word-sized little-endian value from the read cursor; \<open>le_word\<close> is
  that value for the bytes at the cursor, and \<open>le_bytes\<close> is the memory image of a word.
\<close>

definition le_word :: "byte list \<Rightarrow> machine_word_t" where
  "le_word bs = foldr (\<lambda>b w. ucast b OR push_bit 8 w) bs 0"

definition le_bytes :: "machine_word_t \<Rightarrow> byte list" where
  "le_bytes v = map (\<lambda>i. ucast (drop_bit (8 * i) v)) [0..<8]"

definition get_unaligned_leword :: "byte list \<Rightarrow> nat \<Rightarrow> machine_word_t" where
  "get_unaligned_leword bs p = le_word (take 8 (drop p bs))"

definition get_unaligned_le16 :: "byte list \<Rightarrow> nat \<Rightarrow> u16" where
  "get_unaligned_le16 bs p = ucast (le_word (take 2 (drop p bs)))"

section \<open>Input bitstream\<close>

text \<open>
  \<open>in_next\<close> is the read pointer as an offset into the input buffer \<open>in_bytes\<close>; the end
  pointer \<open>in_end\<close> is the length of that buffer.
\<close>

record InputStream =
  bitbuf :: bitbuf_t
  bitsleft :: nat
  overrun_count :: nat
  in_next :: nat
  in_bytes :: "byte list"

definition in_end :: "InputStream \<Rightarrow> nat" where
  "in_end s = length (in_bytes s)"

definition InputStream_init :: "byte list \<Rightarrow> InputStream" where
  "InputStream_init bs =
     \<lparr>bitbuf = 0, bitsleft = 0, overrun_count = 0, in_next = 0, in_bytes = bs\<rparr>"

definition bitbuf_length :: nat where
  "bitbuf_length = 64"

definition bitbuf_max_ensure :: nat where
  "bitbuf_max_ensure = bitbuf_length - 7"

definition fill_bits_wordwise :: "InputStream \<Rightarrow> InputStream" where
  "fill_bits_wordwise s =
     s\<lparr>bitbuf := bitbuf s OR push_bit (bitsleft s) (get_unaligned_leword (in_bytes s) (in_next s)),
       in_next := in_next s + drop_bit 3 (bitbuf_length - bitsleft s),
       bitsleft := bitsleft s + 8 * ((bitbuf_length - bitsleft s) div 8)\<rparr>"

definition have_bits :: "InputStream \<Rightarrow> nat \<Rightarrow> bool" where
  "have_bits s n = (bitsleft s \<ge> n)"

function fill_bits_bytewise :: "InputStream \<Rightarrow> InputStream" where
  "fill_bits_bytewise s =
     (let s1 = (if in_next s \<noteq> in_end s
                then s\<lparr>bitbuf := bitbuf s OR push_bit (bitsleft s) (ucast (in_bytes s ! in_next s)),
                       in_next := in_next s + 1\<rparr>
                else s\<lparr>overrun_count := overrun_count s + 1\<rparr>);
          s2 = s1\<lparr>bitsleft := bitsleft s1 + 8\<rparr>
      in if bitsleft s2 \<le> bitbuf_length - 8 then fill_bits_bytewise s2 else s2)"
  by pat_completeness auto
termination
  by (relation "measure (\<lambda>s. bitbuf_length - bitsleft s)") (auto simp: bitbuf_length_def)

text \<open>\<^verbatim>\<open>size()\<close> is written \<^verbatim>\<open>in_end - in_end\<close> in the source and is modelled so.\<close>

definition InputStream_size :: "InputStream \<Rightarrow> nat" where
  "InputStream_size s = nat (int (in_end s) - int (in_end s))"

definition ensure_bits :: "nat \<Rightarrow> InputStream \<Rightarrow> InputStream" where
  "ensure_bits n s =
     (if \<not> have_bits s n
      then (if int (in_end s) - int (in_next s) \<ge> 8 then fill_bits_wordwise s
            else fill_bits_bytewise s)
      else s)"

definition bits :: "InputStream \<Rightarrow> nat \<Rightarrow> u32 outcome" where
  "bits s n =
     bnd (assertion ''bitsleft >= n'' (bitsleft s \<ge> n))
       (\<lambda>_. Inr (ucast (bitbuf s AND ucast (push_bit n (1 :: u32) - 1))))"

definition remove_bits :: "InputStream \<Rightarrow> nat \<Rightarrow> InputStream outcome" where
  "remove_bits s n =
     bnd (assertion ''bitsleft >= n'' (bitsleft s \<ge> n))
       (\<lambda>_. Inr (s\<lparr>bitbuf := drop_bit n (bitbuf s), bitsleft := bitsleft s - n\<rparr>))"

definition pop_bits :: "InputStream \<Rightarrow> nat \<Rightarrow> (u32 \<times> InputStream) outcome" where
  "pop_bits s n =
     bnd (bits s n) (\<lambda>tmp. bnd (remove_bits s n) (\<lambda>s'. Inr (tmp, s')))"

definition align_input :: "InputStream \<Rightarrow> InputStream" where
  "align_input s =
     s\<lparr>in_next := in_next s - (drop_bit 3 (bitsleft s) - min (overrun_count s) (drop_bit 3 (bitsleft s))),
       bitbuf := 0,
       bitsleft := 0\<rparr>"

definition pop_u16 :: "InputStream \<Rightarrow> (u16 \<times> InputStream) outcome" where
  "pop_u16 s =
     bnd (assertion ''size() >= 2'' (InputStream_size s \<ge> 2))
       (\<lambda>_. if in_next s + 2 \<le> in_end s
             then Inr (get_unaligned_le16 (in_bytes s) (in_next s), s\<lparr>in_next := in_next s + 2\<rparr>)
             else Inl Out_of_bounds)"

text \<open>
  \<^verbatim>\<open>copy(out, n)\<close>: the destination is the caller's business; the model returns the \<open>n\<close>
  bytes read and the advanced stream.
\<close>

definition InputStream_copy :: "InputStream \<Rightarrow> nat \<Rightarrow> (byte list \<times> InputStream) outcome" where
  "InputStream_copy s n =
     bnd (assertion ''size() >= n'' (InputStream_size s \<ge> n))
       (\<lambda>_. if in_next s + n \<le> in_end s
             then Inr (take n (drop (in_next s) (in_bytes s)), s\<lparr>in_next := in_next s + n\<rparr>)
             else Inl Out_of_bounds)"

section \<open>Huffman decode tables\<close>

text \<open>
  Modelled from the spec: \<^verbatim>\<open>deflate_constants.h\<close> is not among the sources; the values are
  the DEFLATE constants of the spec's data model.
\<close>

definition DEFLATE_NUM_PRECODE_SYMS :: nat where "DEFLATE_NUM_PRECODE_SYMS = 19"
definition DEFLATE_NUM_LITLEN_SYMS :: nat where "DEFLATE_NUM_LITLEN_SYMS = 288"
definition DEFLATE_NUM_OFFSET_SYMS :: nat where "DEFLATE_NUM_OFFSET_SYMS = 32"
definition DEFLATE_MAX_NUM_SYMS :: nat where "DEFLATE_MAX_NUM_SYMS = 288"
definition DEFLATE_MAX_PRE_CODEWORD_LEN :: nat where "DEFLATE_MAX_PRE_CODEWORD_LEN = 7"
definition DEFLATE_MAX_LITLEN_CODEWORD_LEN :: nat where "DEFLATE_MAX_LITLEN_CODEWORD_LEN = 15"
definition DEFLATE_MAX_OFFSET_CODEWORD_LEN :: nat where "DEFLATE_MAX_OFFSET_CODEWORD_LEN = 15"
definition DEFLATE_MAX_CODEWORD_LEN :: nat where "DEFLATE_MAX_CODEWORD_LEN = 15"
definition DEFLATE_BLOCKTYPE_UNCOMPRESSED :: u32 where "DEFLATE_BLOCKTYPE_UNCOMPRESSED = 0"
definition DEFLATE_BLOCKTYPE_STATIC_HUFFMAN :: u32 where "DEFLATE_BLOCKTYPE_STATIC_HUFFMAN = 1"
definition DEFLATE_BLOCKTYPE_DYNAMIC_HUFFMAN :: u32 where "DEFLATE_BLOCKTYPE_DYNAMIC_HUFFMAN = 2"

definition PRECODE_TABLEBITS :: nat where "PRECODE_TABLEBITS = 7"
definition LITLEN_TABLEBITS :: nat where "LITLEN_TABLEBITS = 10"
definition OFFSET_TABLEBITS :: nat where "OFFSET_TABLEBITS = 8"

definition HUFFDEC_SUBTABLE_POINTER :: u32 where "HUFFDEC_SUBTABLE_POINTER = 0x80000000"
definition HUFFDEC_LITERAL :: u32 where "HUFFDEC_LITERAL = 0x40000000"
definition HUFFDEC_LENGTH_MASK :: u32 where "HUFFDEC_LENGTH_MASK = 0xFF"
definition HUFFDEC_RESULT_SHIFT :: nat where "HUFFDEC_RESULT_SHIFT = 8"
definition HUFFDEC_EXTRA_LENGTH_BITS_MASK :: u32 where "HUFFDEC_EXTRA_LENGTH_BITS_MASK = 0xFF"
definition HUFFDEC_LENGTH_BASE_SHIFT :: nat where "HUFFDEC_LENGTH_BASE_SHIFT = 8"
definition HUFFDEC_END_OF_BLOCK_LENGTH :: u32 where "HUFFDEC_END_OF_BLOCK_LENGTH = 0"
definition HUFFDEC_EXTRA_OFFSET_BITS_SHIFT :: nat where "HUFFDEC_EXTRA_OFFSET_BITS_SHIFT = 16"
definition HUFFDEC_OFFSET_BASE_MASK :: u32 where
  "HUFFDEC_OFFSET_BASE_MASK = push_bit HUFFDEC_EXTRA_OFFSET_BITS_SHIFT 1 - 1"

definition precode_decode_results :: "u32 list" where
  "precode_decode_results = [0, 1, 2, 3, 4, 5, 6, 7, 8, 9, 10, 11, 12, 13, 14, 15, 16, 17, 18]"

definition literal_entry :: "u32 \<Rightarrow> u32" where
  "literal_entry literal = drop_bit HUFFDEC_RESULT_SHIFT HUFFDEC_LITERAL OR literal"

definition length_entry :: "u32 \<Rightarrow> u32 \<Rightarrow> u32" where
  "length_entry length_base num_extra_bits =
     push_bit HUFFDEC_LENGTH_BASE_SHIFT length_base OR num_extra_bits"

text \<open>The 256 literal entries of the source's table are \<open>literal_entry 0 .. literal_entry 255\<close>.\<close>

definition litlen_decode_results :: "u32 list" where
  "litlen_decode_results =
     map (\<lambda>i. literal_entry (of_nat i)) [0..<256] @
     [length_entry HUFFDEC_END_OF_BLOCK_LENGTH 0] @
     [length_entry 3 0, length_entry 4 0, length_entry 5 0, length_entry 6 0,
      length_entry 7 0, length_entry 8 0, length_entry 9 0, length_entry 10 0,
      length_entry 11 1, length_entry 13 1, length_entry 15 1, length_entry 17 1,
      length_entry 19 2, length_entry 23 2, length_entry 27 2, length_entry 31 2,
      length_entry 35 3, length_entry 43 3, length_entry 51 3, length_entry 59 3,
      length_entry 67 4, length_entry 83 4, length_entry 99 4, length_entry 115 4,
      length_entry 131 5, length_entry 163 5, length_entry 195 5, length_entry 227 5,
      length_entry 258 0, length_entry 258 0, length_entry 258 0]"

definition offset_entry :: "u32 \<Rightarrow> u32 \<Rightarrow> u32" where
  "offset_entry offset_base num_extra_bits =
     offset_base OR push_bit HUFFDEC_EXTRA_OFFSET_BITS_SHIFT num_extra_bits"

definition offset_decode_results :: "u32 list" where
  "offset_decode_results =
     [offset_entry 1 0, offset_entry 2 0, offset_entry 3 0, offset_entry 4 0,
      offset_entry 5 1, offset_entry 7 1, offset_entry 9 2, offset_entry 13 2,
      offset_entry 17 3, offset_entry 25 3, offset_entry 33 4, offset_entry 49 4,
      offset_entry 65 5, offset_entry 97 5, offset_entry 129 6, offset_entry 193 6,
      offset_entry 257 7, offset_entry 385 7, offset_entry 513 8, offset_entry 769 8,
      offset_entry 1025 9, offset_entry 1537 9, offset_entry 2049 10, offset_entry 3073 10,
      offset_entry 4097 11, offset_entry 6145 11, offset_entry 8193 12, offset_entry 12289 12,
      offset_entry 16385 13, offset_entry 24577 13, offset_entry 32769 14, offset_entry 49153 14]"

definition make_decode_table_entry :: "u32 \<Rightarrow> u32 \<Rightarrow> u32" where
  "make_decode_table_entry result len = push_bit HUFFDEC_RESULT_SHIFT result OR len"

subsection \<open>\<^verbatim>\<open>build_decode_table\<close>\<close>

text \<open>
  The arrays behind the pointer arguments (\<^verbatim>\<open>decode_table\<close>, \<^verbatim>\<open>lens\<close>, \<^verbatim>\<open>decode_results\<close>)
  and the three views into \<^verbatim>\<open>working_space\<close> (\<^verbatim>\<open>len_counts\<close>, \<^verbatim>\<open>offsets\<close>, \<^verbatim>\<open>sorted_syms\<close>)
  are functions from indices to values. Codeword lengths, counts and the \<^verbatim>\<open>unsigned\<close>
  locals are natural numbers: for the callers' parameters (at most 288 symbols, lengths at
  most 15) none of them reaches the width of its C type, and the two places where the
  source relies on wrap-around (\<^verbatim>\<open>cur_codeword_prefix = -1\<close> and \<^verbatim>\<open>bit - 1\<close> for
  \<^verbatim>\<open>bit = 0\<close>) have it written out. Decode-table entries are 32-bit words. Reading
  \<^verbatim>\<open>len_counts\<close> or \<^verbatim>\<open>sorted_syms\<close> past its end is the failure \<open>Out_of_bounds\<close>.
\<close>

definition count_lens :: "(nat \<Rightarrow> nat) \<Rightarrow> nat \<Rightarrow> (nat \<Rightarrow> nat)" where
  "count_lens lens num_syms =
     fold (\<lambda>sym c. c(lens sym := c (lens sym) + 1)) [0..<num_syms] (\<lambda>_. 0)"

definition init_offsets :: "(nat \<Rightarrow> nat) \<Rightarrow> nat \<Rightarrow> (nat \<Rightarrow> nat)" where
  "init_offsets c max_codeword_len =
     fold (\<lambda>len off. off(len + 1 := off len + c len)) [0..<max_codeword_len] (\<lambda>_. 0)"

definition sort_syms :: "(nat \<Rightarrow> nat) \<Rightarrow> nat \<Rightarrow> (nat \<Rightarrow> nat) \<Rightarrow> (nat \<Rightarrow> nat) \<times> (nat \<Rightarrow> nat)" where
  "sort_syms lens num_syms offsets0 =
     fold (\<lambda>sym (off, sorted). (off(lens sym := off (lens sym) + 1), sorted(off (lens sym) := sym)))
       [0..<num_syms] (offsets0, \<lambda>_. 0)"

text \<open>The codespace scan; \<open>None\<close> is the early \<^verbatim>\<open>return false\<close> of an over-subscribed code.\<close>

fun check_codespace :: "(nat \<Rightarrow> nat) \<Rightarrow> int \<Rightarrow> nat list \<Rightarrow> int option" where
  "check_codespace c remainder [] = Some remainder"
| "check_codespace c remainder (len # ls) =
     (let r = 2 * remainder - int (c len)
      in if r < 0 then None else check_codespace c r ls)"

function next_codeword_len :: "nat \<Rightarrow> (nat \<Rightarrow> nat) \<Rightarrow> nat \<Rightarrow> nat outcome" where
  "next_codeword_len max_codeword_len c len =
     (if len > max_codeword_len then Inl Out_of_bounds
      else if c len = 0 then next_codeword_len max_codeword_len c (len + 1)
      else Inr len)"
  by pat_completeness auto
termination
  by (relation "measure (\<lambda>(m, c, len). Suc m - len)") auto

function subtable_bits :: "nat \<Rightarrow> (nat \<Rightarrow> nat) \<Rightarrow> nat \<Rightarrow> nat \<Rightarrow> int \<Rightarrow> nat outcome" where
  "subtable_bits max_codeword_len c table_bits cur_bits remainder =
     (if table_bits + cur_bits > max_codeword_len then Inl Out_of_bounds
      else (let r = remainder - int (c (table_bits + cur_bits))
            in if r \<le> 0 then Inr cur_bits
               else subtable_bits max_codeword_len c table_bits (cur_bits + 1) (2 * r)))"
  by pat_completeness auto
termination
  by (relation "measure (\<lambda>(m, c, tb, n, r). Suc m - (tb + n))") auto

function fill_entries :: "(nat \<Rightarrow> u32) \<Rightarrow> nat \<Rightarrow> nat \<Rightarrow> nat \<Rightarrow> u32 \<Rightarrow> (nat \<Rightarrow> u32)" where
  "fill_entries t i end_idx shift entry =
     (if i < end_idx then fill_entries (t(i := entry)) (i + 2 ^ shift) end_idx shift entry else t)"
  by pat_completeness auto
termination
  by (relation "measure (\<lambda>(t, i, e, s, entry). e - i)") (auto intro: diff_less_mono2)

function find_clear_bit :: "nat \<Rightarrow> nat \<Rightarrow> nat" where
  "find_clear_bit cw b = (if cw AND b \<noteq> 0 then find_clear_bit cw (drop_bit 1 b) else b)"
  by pat_completeness auto
termination
proof (relation "measure (\<lambda>(cw, b). b)")
  show "wf (measure (\<lambda>(cw, b). b))" by simp
next
  fix cw b :: nat
  assume "cw AND b \<noteq> 0"
  then have "b \<noteq> 0" by (cases "b = 0") simp_all
  then show "((cw, drop_bit 1 b), (cw, b)) \<in> measure (\<lambda>(cw, b). b)"
    by (simp add: drop_bit_eq_div)
qed

definition advance_codeword :: "nat \<Rightarrow> nat \<Rightarrow> nat" where
  "advance_codeword cw len =
     (let b = find_clear_bit cw (2 ^ (len - 1))
      in (cw AND ((b + 4294967295) mod 4294967296)) OR b)"

record table_state =
  decode_table :: "nat \<Rightarrow> u32"
  len_counts :: "nat \<Rightarrow> nat"
  codeword_len :: nat
  codeword_reversed :: nat
  cur_codeword_prefix :: nat
  cur_table_start :: nat
  cur_table_bits :: nat
  num_dropped_bits :: nat

text \<open>One pass of the body of the main loop, up to the advance of the codeword.\<close>

definition open_subtable :: "nat \<Rightarrow> nat \<Rightarrow> table_state \<Rightarrow> table_state outcome" where
  "open_subtable table_bits max_codeword_len st =
     (if codeword_len st > table_bits \<and>
         (codeword_reversed st AND (2 ^ table_bits - 1)) \<noteq> cur_codeword_prefix st
      then (let prefix = codeword_reversed st AND (2 ^ table_bits - 1);
                start = cur_table_start st + 2 ^ cur_table_bits st
            in bnd (subtable_bits max_codeword_len (len_counts st) table_bits
                      (codeword_len st - table_bits) (2 ^ (codeword_len st - table_bits)))
                 (\<lambda>n. Inr (st\<lparr>cur_codeword_prefix := prefix,
                                cur_table_start := start,
                                cur_table_bits := n,
                                decode_table := (decode_table st)
                                  (prefix := HUFFDEC_SUBTABLE_POINTER OR
                                             make_decode_table_entry (of_nat start) (of_nat n)),
                                num_dropped_bits := table_bits\<rparr>)))
      else Inr st)"

definition put_codeword :: "(nat \<Rightarrow> u32) \<Rightarrow> nat \<Rightarrow> table_state \<Rightarrow> table_state" where
  "put_codeword decode_results s st =
     (let entry = make_decode_table_entry (decode_results s)
                    (of_nat (codeword_len st - num_dropped_bits st));
          end_idx = cur_table_start st + 2 ^ cur_table_bits st
      in st\<lparr>decode_table :=
               fill_entries (decode_table st)
                 (cur_table_start st + drop_bit (num_dropped_bits st) (codeword_reversed st))
                 end_idx (codeword_len st - num_dropped_bits st) entry,
             codeword_reversed := advance_codeword (codeword_reversed st) (codeword_len st)\<rparr>)"

lemma bnd_cong [fundef_cong]:
  "m = m' \<Longrightarrow> (\<And>x. m' = Inr x \<Longrightarrow> f x = f' x) \<Longrightarrow> bnd m f = bnd m' f'"
  by (auto simp: bnd_def split: sum.splits)

function fill_table ::
  "nat \<Rightarrow> nat \<Rightarrow> (nat \<Rightarrow> u32) \<Rightarrow> nat \<Rightarrow> (nat \<Rightarrow> nat) \<Rightarrow> nat \<Rightarrow> table_state
     \<Rightarrow> (bool \<times> (nat \<Rightarrow> u32)) outcome" where
  "fill_table table_bits max_codeword_len decode_results num_syms sorted_syms sym_idx st =
     (if sym_idx \<ge> num_syms then Inl Out_of_bounds
      else bnd (open_subtable table_bits max_codeword_len st) (\<lambda>st1.
        let st2 = put_codeword decode_results (sorted_syms sym_idx) st1
        in if sym_idx + 1 = num_syms then Inr (True, decode_table st2)
           else (let c = (len_counts st2)
                           (codeword_len st2 := (len_counts st2 (codeword_len st2) + 65535) mod 65536)
                 in bnd (next_codeword_len max_codeword_len c (codeword_len st2)) (\<lambda>len.
                      fill_table table_bits max_codeword_len decode_results num_syms sorted_syms
                        (sym_idx + 1) (st2\<lparr>len_counts := c, codeword_len := len\<rparr>)))))"
  by pat_completeness auto
termination
  by (relation "measure (\<lambda>(tb, m, r, n, s, i, st). n - i)") auto

definition build_decode_table ::
  "(nat \<Rightarrow> u32) \<Rightarrow> (nat \<Rightarrow> nat) \<Rightarrow> nat \<Rightarrow> (nat \<Rightarrow> u32) \<Rightarrow> nat \<Rightarrow> nat
     \<Rightarrow> (bool \<times> (nat \<Rightarrow> u32)) outcome" where
  "build_decode_table decode_table0 lens num_syms decode_results table_bits max_codeword_len =
     (let counts = count_lens lens num_syms;
          offsets0 = init_offsets counts max_codeword_len;
          (offsets, sorted_syms) = sort_syms lens num_syms offsets0;
          generate = (\<lambda>t.
            bnd (next_codeword_len max_codeword_len counts 1) (\<lambda>len.
              fill_table table_bits max_codeword_len decode_results num_syms sorted_syms (offsets 0)
                \<lparr>decode_table = t, len_counts = counts, codeword_len = len,
                 codeword_reversed = 0, cur_codeword_prefix = 4294967295,
                 cur_table_start = 0, cur_table_bits = table_bits, num_dropped_bits = 0\<rparr>))
      in case check_codespace counts 1 [1..<max_codeword_len + 1] of
           None \<Rightarrow> Inr (False, decode_table0)
         | Some remainder \<Rightarrow>
             if remainder \<noteq> 0
             then (let entry = make_decode_table_entry (decode_results 0) 1;
                       t = fold (\<lambda>sym t. t(sym := entry)) [0..<2 ^ table_bits] decode_table0
                   in if remainder = 2 ^ max_codeword_len then Inr (True, t)
                      else if remainder \<noteq> 2 ^ (max_codeword_len - 1) \<or> counts 1 \<noteq> 1
                      then Inr (False, t)
                      else generate t)
             else generate decode_table0)"

section \<open>Output window\<close>

text \<open>
  Pointers into the window buffer (\<^verbatim>\<open>next\<close>, \<^verbatim>\<open>current_blk\<close>, \<^verbatim>\<open>first_blk\<close>, \<^verbatim>\<open>first_ref\<close>,
  \<^verbatim>\<open>buffer_end\<close>) are byte offsets from \<^verbatim>\<open>buffer\<close>; \<^verbatim>\<open>target\<close> and \<^verbatim>\<open>target_end\<close> are offsets
  into the caller's output buffer, whose memory is \<open>target_mem\<close>. The write cursor
  \<^verbatim>\<open>next\<close> is the field \<open>wnext\<close>. The calls to \<^verbatim>\<open>printf\<close> are left out.
\<close>

record DeflateWindow =
  target_mem :: mem
  target :: nat
  target_end :: nat
  blk_count :: nat
  current_blk :: nat
  first_blk :: nat
  first_ref :: nat
  buffer :: mem
  buffer_end :: nat
  wnext :: nat

definition DeflateWindow_init :: "nat \<Rightarrow> mem \<Rightarrow> mem \<Rightarrow> nat \<Rightarrow> DeflateWindow" where
  "DeflateWindow_init window_bits heap out_mem out_nbytes_avail =
     \<lparr>target_mem = out_mem, target = 0, target_end = out_nbytes_avail,
      blk_count = 0, current_blk = 0, first_blk = 0, first_ref = 0,
      buffer = heap, buffer_end = 2 ^ window_bits, wnext = 0\<rparr>"

text \<open>\<^verbatim>\<open>size()\<close> and \<^verbatim>\<open>available()\<close> return \<^verbatim>\<open>unsigned\<close>.\<close>

definition window_size :: "DeflateWindow \<Rightarrow> nat" where
  "window_size w = wnext w mod 2 ^ 32"

definition available :: "DeflateWindow \<Rightarrow> nat" where
  "available w = nat ((int (buffer_end w) - int (wnext w)) mod 2 ^ 32)"

definition push :: "DeflateWindow \<Rightarrow> byte \<Rightarrow> DeflateWindow outcome" where
  "push w c =
     bnd (assertion ''next < buffer_end'' (wnext w < buffer_end w)) (\<lambda>_.
     bnd (assertion ''available() > 0'' (available w > 0)) (\<lambda>_.
       Inr (w\<lparr>buffer := (buffer w)(wnext w := c), wnext := wnext w + 1\<rparr>)))"

text \<open>
  \<^verbatim>\<open>memcpy\<close> between distinct objects, or inside one object when the two ranges do not
  overlap: the bytes are read from the memory as it was before the call.
\<close>

definition memcpy :: "mem \<Rightarrow> nat \<Rightarrow> mem \<Rightarrow> nat \<Rightarrow> nat \<Rightarrow> mem" where
  "memcpy dst_mem dst src_mem src n =
     (\<lambda>p. if dst \<le> p \<and> p < dst + n then src_mem (src + (p - dst)) else dst_mem p)"

subsection \<open>\<^verbatim>\<open>copy_match\<close>\<close>

text \<open>
  Modelled from the spec: \<^verbatim>\<open>load_word_unaligned\<close> and \<^verbatim>\<open>store_word_unaligned\<close> come from
  \<^verbatim>\<open>unaligned.h\<close>, which is not among the sources; they read and write the \<open>WORDBYTES\<close>
  bytes at an address as one machine word (the spec's word-granular unaligned loads and
  stores). An access that leaves the window buffer is \<open>Out_of_bounds\<close>.
\<close>

definition load_word_unaligned :: "DeflateWindow \<Rightarrow> nat \<Rightarrow> machine_word_t outcome" where
  "load_word_unaligned w p =
     (if p + WORDBYTES \<le> buffer_end w
      then Inr (le_word (map (buffer w) [p..<p + WORDBYTES]))
      else Inl Out_of_bounds)"

definition store_bytes :: "mem \<Rightarrow> nat \<Rightarrow> byte list \<Rightarrow> mem" where
  "store_bytes m p bs = (\<lambda>q. if p \<le> q \<and> q < p + length bs then bs ! (q - p) else m q)"

definition store_word_unaligned :: "machine_word_t \<Rightarrow> DeflateWindow \<Rightarrow> nat \<Rightarrow> DeflateWindow outcome" where
  "store_word_unaligned v w p =
     (if p + WORDBYTES \<le> buffer_end w
      then Inr (w\<lparr>buffer := store_bytes (buffer w) p (le_bytes v)\<rparr>)
      else Inl Out_of_bounds)"

definition copy_word_unaligned :: "DeflateWindow \<Rightarrow> nat \<Rightarrow> nat \<Rightarrow> DeflateWindow outcome" where
  "copy_word_unaligned w src dst =
     bnd (load_word_unaligned w src) (\<lambda>v. store_word_unaligned v w dst)"

definition repeat_byte :: "byte \<Rightarrow> machine_word_t" where
  "repeat_byte b =
     (let v0 = (ucast b :: machine_word_t);
          v1 = v0 OR push_bit 8 v0;
          v2 = v1 OR push_bit 16 v1;
          v3 = v2 OR push_bit 32 v2
      in v3)"

definition copy_byte :: "DeflateWindow \<Rightarrow> nat \<Rightarrow> nat \<Rightarrow> DeflateWindow outcome" where
  "copy_byte w src dst =
     (if src < buffer_end w \<and> dst < buffer_end w
      then Inr (w\<lparr>buffer := (buffer w)(dst := buffer w src)\<rparr>)
      else Inl Out_of_bounds)"

text \<open>The three \<^verbatim>\<open>do ... while (dst < dst_end)\<close> loops.\<close>

function word_copy_loop :: "DeflateWindow \<Rightarrow> nat \<Rightarrow> nat \<Rightarrow> nat \<Rightarrow> DeflateWindow outcome" where
  "word_copy_loop w src dst dst_end =
     bnd (copy_word_unaligned w src dst) (\<lambda>w'.
       if dst + WORDBYTES < dst_end
       then word_copy_loop w' (src + WORDBYTES) (dst + WORDBYTES) dst_end
       else Inr w')"
  by pat_completeness auto
termination
  by (relation "measure (\<lambda>(w, src, dst, dst_end). dst_end - dst)") (auto simp: WORDBYTES_def)

function word_fill_loop :: "machine_word_t \<Rightarrow> DeflateWindow \<Rightarrow> nat \<Rightarrow> nat \<Rightarrow> DeflateWindow outcome" where
  "word_fill_loop v w dst dst_end =
     bnd (store_word_unaligned v w dst) (\<lambda>w'.
       if dst + WORDBYTES < dst_end
       then word_fill_loop v w' (dst + WORDBYTES) dst_end
       else Inr w')"
  by pat_completeness auto
termination
  by (relation "measure (\<lambda>(v, w, dst, dst_end). dst_end - dst)") (auto simp: WORDBYTES_def)

function byte_copy_loop :: "DeflateWindow \<Rightarrow> nat \<Rightarrow> nat \<Rightarrow> nat \<Rightarrow> DeflateWindow outcome" where
  "byte_copy_loop w src dst dst_end =
     bnd (copy_byte w src dst) (\<lambda>w'.
       if dst + 1 < dst_end
       then byte_copy_loop w' (src + 1) (dst + 1) dst_end
       else Inr w')"
  by pat_completeness auto
termination
  by (relation "measure (\<lambda>(w, src, dst, dst_end). dst_end - dst)") auto

text \<open>
  The byte-wise branches copy two bytes unconditionally and then enter the
  \<^verbatim>\<open>do ... while\<close> loop.
\<close>

definition bytewise_copy :: "DeflateWindow \<Rightarrow> nat \<Rightarrow> nat \<Rightarrow> nat \<Rightarrow> DeflateWindow outcome" where
  "bytewise_copy w src dst dst_end =
     bnd (copy_byte w src dst) (\<lambda>w1.
     bnd (copy_byte w1 (src + 1) (dst + 1)) (\<lambda>w2.
       byte_copy_loop w2 (src + 2) (dst + 2) dst_end))"

text \<open>
  The copy itself: the \<^verbatim>\<open>if ... else\<close> of \<^verbatim>\<open>copy_match\<close> between the update of
  \<^verbatim>\<open>first_ref\<close> and \<^verbatim>\<open>next += length\<close>.
\<close>

definition copy_match_bytes :: "DeflateWindow \<Rightarrow> nat \<Rightarrow> nat \<Rightarrow> DeflateWindow outcome" where
  "copy_match_bytes w len offset =
     (let nxt = wnext w
      in if len \<le> 3 * WORDBYTES \<and> offset \<ge> WORDBYTES \<and>
            len + 3 * WORDBYTES \<le> buffer_end w - nxt
         then bnd (copy_word_unaligned w (nxt - offset + 0 * WORDBYTES) (nxt + 0 * WORDBYTES)) (\<lambda>w1.
              bnd (copy_word_unaligned w1 (nxt - offset + 1 * WORDBYTES) (nxt + 1 * WORDBYTES)) (\<lambda>w2.
                   copy_word_unaligned w2 (nxt - offset + 2 * WORDBYTES) (nxt + 2 * WORDBYTES)))
         else (let src = nxt - offset; dst = nxt; dst_end = dst + len
               in if int (buffer_end w) - int dst_end \<ge> int WORDBYTES - 1
                  then (if offset \<ge> WORDBYTES
                        then bnd (copy_word_unaligned w src dst) (\<lambda>w1.
                               if dst + WORDBYTES < dst_end
                               then word_copy_loop w1 (src + WORDBYTES) (dst + WORDBYTES) dst_end
                               else Inr w1)
                        else if offset = 1
                        then word_fill_loop (repeat_byte (buffer w (dst - 1))) w dst dst_end
                        else bytewise_copy w src dst dst_end)
                  else bytewise_copy w src dst dst_end))"

definition copy_match :: "DeflateWindow \<Rightarrow> nat \<Rightarrow> nat \<Rightarrow> DeflateWindow outcome" where
  "copy_match w0 len offset =
     bnd (assertion ''offset <= size()'' (offset \<le> window_size w0)) (\<lambda>_.
     bnd (assertion ''available() >= length'' (available w0 \<ge> len)) (\<lambda>_.
     bnd (assertion ''offset > 0'' (offset > 0)) (\<lambda>_.
       let w = (if first_ref w0 > wnext w0 - offset
                then w0\<lparr>first_ref := wnext w0 - offset\<rparr> else w0)
       in bnd (copy_match_bytes w len offset)
            (\<lambda>w'. Inr (w'\<lparr>wnext := wnext w' + len\<rparr>)))))"

text \<open>
  The reference semantics of a match: \<open>n\<close> bytes copied one at a time, in order, from
  \<open>src\<close> to \<open>dst\<close>, each read seeing the writes before it.
\<close>

fun byte_by_byte_copy :: "mem \<Rightarrow> nat \<Rightarrow> nat \<Rightarrow> nat \<Rightarrow> mem" where
  "byte_by_byte_copy m src dst 0 = m"
| "byte_by_byte_copy m src dst (Suc n) =
     byte_by_byte_copy (m(dst := m src)) (Suc src) (Suc dst) n"

text \<open>
  \<open>lz_copied off m m' dst n\<close>: \<open>m'\<close> agrees with \<open>m\<close> below \<open>dst\<close>, and each of the \<open>n\<close>
  bytes from \<open>dst\<close> on repeats the byte \<open>off\<close> positions before it.
\<close>

definition lz_copied :: "nat \<Rightarrow> mem \<Rightarrow> mem \<Rightarrow> nat \<Rightarrow> nat \<Rightarrow> bool" where
  "lz_copied off m m' dst n \<longleftrightarrow>
     (\<forall>p<dst. m' p = m p) \<and> (\<forall>i<n. m' (dst + i) = m' (dst + i - off))"

text \<open>\<^verbatim>\<open>copy(in, length)\<close>: the literal bytes of a stored block.\<close>

definition window_copy :: "DeflateWindow \<Rightarrow> InputStream \<Rightarrow> nat \<Rightarrow> (DeflateWindow \<times> InputStream) outcome" where
  "window_copy w s len =
     bnd (assertion ''available() >= length'' (available w \<ge> len)) (\<lambda>_.
     bnd (InputStream_copy s len) (\<lambda>(bs, s').
       Inr (w\<lparr>buffer := store_bytes (buffer w) (wnext w) bs, wnext := wnext w + len\<rparr>, s')))"

subsection \<open>\<^verbatim>\<open>flush\<close>, \<^verbatim>\<open>full_flush\<close>, \<^verbatim>\<open>notify_end_block\<close>\<close>

definition flush :: "DeflateWindow \<Rightarrow> DeflateWindow outcome" where
  "flush w =
     bnd (assertion ''next >= current_blk'' (wnext w \<ge> current_blk w)) (\<lambda>_.
       let keep_size = max (2 ^ 15) (wnext w - current_blk w)
       in if window_size w > keep_size
          then (let evict_size = window_size w - keep_size
                in bnd (assertion ''target + evict_size < target_end''
                          (target w + evict_size < target_end w)) (\<lambda>_.
                   let tm = memcpy (target_mem w) (target w) (buffer w) 0 evict_size;
                       tgt = target w + evict_size
                   in bnd (assertion ''buffer + evict_size == next - keep_size''
                             (int evict_size = int (wnext w) - int keep_size)) (\<lambda>_.
                      bnd (assertion ''buffer + keep_size < next - keep_size''
                             (int keep_size < int (wnext w) - int keep_size)) (\<lambda>_.
                      let buf = memcpy (buffer w) 0 (buffer w) (wnext w - keep_size) keep_size;
                          cur = int (current_blk w) - int evict_size
                      in bnd (assertion ''current_blk >= buffer'' (cur \<ge> 0)) (\<lambda>_.
                           Inr (w\<lparr>target_mem := tm, target := tgt, buffer := buf,
                                  wnext := keep_size, blk_count := 0,
                                  current_blk := nat cur, first_blk := nat cur,
                                  first_ref := nat cur\<rparr>))))))
          else Inr w)"

text \<open>
  \<^verbatim>\<open>full_flush\<close> copies \<^verbatim>\<open>size()\<close> bytes to \<^verbatim>\<open>target\<close>; writing past \<^verbatim>\<open>target_end\<close> leaves
  the caller's buffer.
\<close>

definition full_flush :: "DeflateWindow \<Rightarrow> DeflateWindow outcome" where
  "full_flush w =
     bnd (assertion ''current_blk == next'' (current_blk w = wnext w)) (\<lambda>_.
     bnd (assertion ''target + size() >= target_end'' (target w + window_size w \<ge> target_end w)) (\<lambda>_.
       if target w + window_size w \<le> target_end w
       then Inr (w\<lparr>target_mem := memcpy (target_mem w) (target w) (buffer w) 0 (window_size w)\<rparr>)
       else Inl Out_of_bounds))"

definition notify_end_block :: "DeflateWindow \<Rightarrow> DeflateWindow" where
  "notify_end_block w = w\<lparr>current_blk := wnext w, blk_count := blk_count w + 1\<rparr>"

section \<open>Block decoding\<close>

text \<open>
  The decompressor structure. Its unions overlay \<^verbatim>\<open>precode_lens\<close> with the start of
  \<^verbatim>\<open>lens\<close>, and \<^verbatim>\<open>lens\<close> and \<^verbatim>\<open>precode_decode_table\<close> with \<^verbatim>\<open>litlen_decode_table\<close>. Every
  block writes each array before it reads it and reads none of them after an overlaying
  array has been written, so the fields are kept apart here.
\<close>

record libdeflate_decompressor =
  precode_lens :: "nat \<Rightarrow> nat"
  lens :: "nat \<Rightarrow> nat"
  precode_decode_table :: "nat \<Rightarrow> u32"
  litlen_decode_table :: "nat \<Rightarrow> u32"
  offset_decode_table :: "nat \<Rightarrow> u32"

definition build_precode_decode_table ::
  "libdeflate_decompressor \<Rightarrow> (bool \<times> libdeflate_decompressor) outcome" where
  "build_precode_decode_table d =
     bnd (build_decode_table (precode_decode_table d) (precode_lens d)
            DEFLATE_NUM_PRECODE_SYMS (\<lambda>s. precode_decode_results ! s)
            PRECODE_TABLEBITS DEFLATE_MAX_PRE_CODEWORD_LEN)
       (\<lambda>(ok, t). Inr (ok, d\<lparr>precode_decode_table := t\<rparr>))"

definition build_litlen_decode_table ::
  "libdeflate_decompressor \<Rightarrow> nat \<Rightarrow> nat \<Rightarrow> (bool \<times> libdeflate_decompressor) outcome" where
  "build_litlen_decode_table d num_litlen_syms num_offset_syms =
     bnd (build_decode_table (litlen_decode_table d) (lens d)
            num_litlen_syms (\<lambda>s. litlen_decode_results ! s)
            LITLEN_TABLEBITS DEFLATE_MAX_LITLEN_CODEWORD_LEN)
       (\<lambda>(ok, t). Inr (ok, d\<lparr>litlen_decode_table := t\<rparr>))"

definition build_offset_decode_table ::
  "libdeflate_decompressor \<Rightarrow> nat \<Rightarrow> nat \<Rightarrow> (bool \<times> libdeflate_decompressor) outcome" where
  "build_offset_decode_table d num_litlen_syms num_offset_syms =
     bnd (build_decode_table (offset_decode_table d) (\<lambda>i. lens d (num_litlen_syms + i))
            num_offset_syms (\<lambda>s. offset_decode_results ! s)
            OFFSET_TABLEBITS DEFLATE_MAX_OFFSET_CODEWORD_LEN)
       (\<lambda>(ok, t). Inr (ok, d\<lparr>offset_decode_table := t\<rparr>))"

definition deflate_precode_lens_permutation :: "nat list" where
  "deflate_precode_lens_permutation =
     [16, 17, 18, 0, 8, 7, 9, 6, 10, 5, 11, 4, 12, 3, 13, 2, 14, 1, 15]"

fun read_precode_lens ::
  "nat list \<Rightarrow> (nat \<Rightarrow> nat) \<Rightarrow> InputStream \<Rightarrow> ((nat \<Rightarrow> nat) \<times> InputStream) outcome" where
  "read_precode_lens [] pl s = Inr (pl, s)"
| "read_precode_lens (i # is) pl s =
     bnd (pop_bits s 3) (\<lambda>(v, s').
       read_precode_lens is (pl(deflate_precode_lens_permutation ! i := unat v)) s')"

text \<open>The loop that expands the literal/length and offset codeword lengths.\<close>

function expand_lens ::
  "libdeflate_decompressor \<Rightarrow> InputStream \<Rightarrow> nat \<Rightarrow> nat
     \<Rightarrow> (libdeflate_decompressor \<times> InputStream) outcome" where
  "expand_lens d s0 i n =
     (if i < n
      then (let s = ensure_bits (DEFLATE_MAX_PRE_CODEWORD_LEN + 7) s0
            in bnd (bits s DEFLATE_MAX_PRE_CODEWORD_LEN) (\<lambda>idx.
               let entry = precode_decode_table d (unat idx)
               in bnd (remove_bits s (unat (entry AND HUFFDEC_LENGTH_MASK))) (\<lambda>s1.
                  let presym = unat (drop_bit HUFFDEC_RESULT_SHIFT entry)
                  in if presym < 16
                     then expand_lens (d\<lparr>lens := (lens d)(i := presym)\<rparr>) s1 (i + 1) n
                     else if presym = 16
                     then bnd (assertion ''i != 0'' (i \<noteq> 0)) (\<lambda>_.
                          let rep_val = lens d (i - 1)
                          in bnd (pop_bits s1 2) (\<lambda>(v, s2).
                             let rep_count = 3 + unat v
                             in expand_lens
                                  (d\<lparr>lens := fold (\<lambda>k l. l(i + k := rep_val)) [0..<6] (lens d)\<rparr>)
                                  s2 (i + rep_count) n))
                     else if presym = 17
                     then bnd (pop_bits s1 3) (\<lambda>(v, s2).
                            let rep_count = 3 + unat v
                            in expand_lens
                                 (d\<lparr>lens := fold (\<lambda>k l. l(i + k := 0)) [0..<10] (lens d)\<rparr>)
                                 s2 (i + rep_count) n)
                     else bnd (pop_bits s1 7) (\<lambda>(v, s2).
                            let rep_count = 11 + unat v
                            in expand_lens
                                 (d\<lparr>lens := fold (\<lambda>k l. l(i + k := 0)) [0..<rep_count] (lens d)\<rparr>)
                                 s2 (i + rep_count) n))))
      else Inr (d, s0))"
  by pat_completeness auto
termination
  by (relation "measure (\<lambda>(d, s, i, n). n - i)") auto

definition prepare_dynamic ::
  "libdeflate_decompressor \<Rightarrow> InputStream \<Rightarrow> (libdeflate_decompressor \<times> InputStream) outcome" where
  "prepare_dynamic d s =
     bnd (pop_bits s 5) (\<lambda>(v1, s1).
     bnd (pop_bits s1 5) (\<lambda>(v2, s2).
     bnd (pop_bits s2 4) (\<lambda>(v3, s3).
       let num_litlen_syms = unat v1 + 257;
           num_offset_syms = unat v2 + 1;
           num_explicit_precode_lens = unat v3 + 4;
           s4 = ensure_bits (DEFLATE_NUM_PRECODE_SYMS * 3) s3
       in bnd (read_precode_lens [0..<num_explicit_precode_lens] (precode_lens d) s4) (\<lambda>(pl, s5).
          let pl' = fold (\<lambda>i l. l(deflate_precode_lens_permutation ! i := 0))
                      [num_explicit_precode_lens..<DEFLATE_NUM_PRECODE_SYMS] pl
          in bnd (build_precode_decode_table (d\<lparr>precode_lens := pl'\<rparr>)) (\<lambda>(ok, d1).
             bnd (assertion ''build_precode_decode_table(d)'' ok) (\<lambda>_.
             bnd (expand_lens d1 s5 0 (num_litlen_syms + num_offset_syms)) (\<lambda>(d2, s6).
             bnd (build_offset_decode_table d2 num_litlen_syms num_offset_syms) (\<lambda>(ok, d3).
             bnd (assertion ''build_offset_decode_table(d, num_litlen_syms, num_offset_syms)'' ok) (\<lambda>_.
             bnd (build_litlen_decode_table d3 num_litlen_syms num_offset_syms) (\<lambda>(ok, d4).
             bnd (assertion ''build_litlen_decode_table(d, num_litlen_syms, num_offset_syms)'' ok) (\<lambda>_.
               Inr (d4, s6))))))))))))"

definition static_lens :: "(nat \<Rightarrow> nat) \<Rightarrow> (nat \<Rightarrow> nat)" where
  "static_lens l0 =
     fold (\<lambda>i l. l(i := 5)) [DEFLATE_NUM_LITLEN_SYMS..<DEFLATE_NUM_LITLEN_SYMS + DEFLATE_NUM_OFFSET_SYMS]
       (fold (\<lambda>i l. l(i := 8)) [280..<DEFLATE_NUM_LITLEN_SYMS]
         (fold (\<lambda>i l. l(i := 7)) [256..<280]
           (fold (\<lambda>i l. l(i := 9)) [144..<256]
             (fold (\<lambda>i l. l(i := 8)) [0..<144] l0))))"

definition prepare_static :: "libdeflate_decompressor \<Rightarrow> libdeflate_decompressor outcome" where
  "prepare_static d =
     (let d0 = d\<lparr>lens := static_lens (lens d)\<rparr>
      in bnd (build_offset_decode_table d0 DEFLATE_NUM_LITLEN_SYMS DEFLATE_NUM_OFFSET_SYMS) (\<lambda>(ok, d1).
         bnd (assertion ''build_offset_decode_table(d, DEFLATE_NUM_LITLEN_SYMS, DEFLATE_NUM_OFFSET_SYMS)'' ok) (\<lambda>_.
         bnd (build_litlen_decode_table d1 DEFLATE_NUM_LITLEN_SYMS DEFLATE_NUM_OFFSET_SYMS) (\<lambda>(ok, d2).
         bnd (assertion ''build_litlen_decode_table(d, DEFLATE_NUM_LITLEN_SYMS, DEFLATE_NUM_OFFSET_SYMS)'' ok) (\<lambda>_.
           Inr d2)))))"

definition do_uncompressed ::
  "InputStream \<Rightarrow> DeflateWindow \<Rightarrow> (InputStream \<times> DeflateWindow) outcome" where
  "do_uncompressed s0 out =
     (let s = align_input s0
      in bnd (assertion ''in_stream.size() >= 4'' (InputStream_size s \<ge> 4)) (\<lambda>_.
         bnd (pop_u16 s) (\<lambda>(len, s1).
         bnd (pop_u16 s1) (\<lambda>(nlen, s2).
         bnd (assertion ''len == (u16)~nlen'' (len = NOT nlen)) (\<lambda>_.
         bnd (assertion ''len <= in_stream.size()'' (unat len \<le> InputStream_size s2)) (\<lambda>_.
         bnd (window_copy out s2 (unat len)) (\<lambda>(out', s3). Inr (s3, out'))))))))"

text \<open>
  A decode-table lookup as the decode loop does it: the entry for the next \<open>table_bits\<close>
  bits and, when it is a subtable pointer, the subtable entry for the bits after them.
  The bits of the codeword are removed.
\<close>

definition decode_symbol :: "(nat \<Rightarrow> u32) \<Rightarrow> nat \<Rightarrow> InputStream \<Rightarrow> (u32 \<times> InputStream) outcome" where
  "decode_symbol table table_bits s =
     bnd (bits s table_bits) (\<lambda>idx.
     bnd (let entry = table (unat idx)
          in if entry AND HUFFDEC_SUBTABLE_POINTER \<noteq> 0
             then bnd (remove_bits s table_bits) (\<lambda>s1.
                  bnd (bits s1 (unat (entry AND HUFFDEC_LENGTH_MASK))) (\<lambda>idx2.
                    Inr (table (unat ((drop_bit HUFFDEC_RESULT_SHIFT entry AND 0xFFFF) + idx2)), s1)))
             else Inr (entry, s)) (\<lambda>(entry, s1).
     bnd (remove_bits s1 (unat (entry AND HUFFDEC_LENGTH_MASK))) (\<lambda>s2. Inr (entry, s2))))"

text \<open>
  The main decode loop of \<^verbatim>\<open>do_block\<close>. It has no bound in the source; \<open>fuel\<close> bounds the
  number of iterations, and \<open>None\<close> is the model running out of it.
\<close>

fun decode_loop ::
  "nat \<Rightarrow> libdeflate_decompressor \<Rightarrow> bool \<Rightarrow> InputStream \<Rightarrow> DeflateWindow
     \<Rightarrow> (bool \<times> InputStream \<times> DeflateWindow) outcome option" where
  "decode_loop 0 d is_final_block s0 out = None"
| "decode_loop (Suc fuel) d is_final_block s0 out =
     (case decode_symbol (litlen_decode_table d) LITLEN_TABLEBITS
             (ensure_bits DEFLATE_MAX_LITLEN_CODEWORD_LEN s0) of
        Inl e \<Rightarrow> Some (Inl e)
      | Inr (entry0, s1) \<Rightarrow>
          if entry0 AND HUFFDEC_LITERAL \<noteq> 0
          then (case bnd (if available out = 0 then flush out else Inr out)
                       (\<lambda>out1. push out1 (ucast (drop_bit HUFFDEC_RESULT_SHIFT entry0))) of
                  Inl e \<Rightarrow> Some (Inl e)
                | Inr out2 \<Rightarrow> decode_loop fuel d is_final_block s1 out2)
          else (let entry = drop_bit HUFFDEC_RESULT_SHIFT entry0;
                    s2 = ensure_bits bitbuf_max_ensure s1
                in case pop_bits s2 (unat (entry AND HUFFDEC_EXTRA_LENGTH_BITS_MASK)) of
                     Inl e \<Rightarrow> Some (Inl e)
                   | Inr (extra, s3) \<Rightarrow>
                       (let len = drop_bit HUFFDEC_LENGTH_BASE_SHIFT entry + extra
                        in if unat (len - 1) \<ge> available out \<and> len = HUFFDEC_END_OF_BLOCK_LENGTH
                           then Some (Inr (is_final_block, s3, notify_end_block out))
                           else (case
                                   bnd (if unat (len - 1) \<ge> available out
                                        then bnd (flush out) (\<lambda>out1.
                                             bnd (assertion ''!(length - 1 >= out.available())''
                                                    (\<not> unat (len - 1) \<ge> available out1)) (\<lambda>_. Inr out1))
                                        else Inr out) (\<lambda>out1.
                                   bnd (assertion ''length > 0'' (len > 0)) (\<lambda>_.
                                   bnd (decode_symbol (offset_decode_table d) OFFSET_TABLEBITS s3) (\<lambda>(oentry0, s4).
                                     let oentry = drop_bit HUFFDEC_RESULT_SHIFT oentry0
                                     in bnd (pop_bits s4 (unat (drop_bit HUFFDEC_EXTRA_OFFSET_BITS_SHIFT oentry))) (\<lambda>(oextra, s5).
                                        let offset = (oentry AND HUFFDEC_OFFSET_BASE_MASK) + oextra
                                        in bnd (copy_match out1 (unat len) (unat offset)) (\<lambda>out2.
                                             Inr (s5, out2)))))) of
                                   Inl e \<Rightarrow> Some (Inl e)
                                 | Inr (s5, out2) \<Rightarrow> decode_loop fuel d is_final_block s5 out2))))"

datatype libdeflate_result =
  LIBDEFLATE_SUCCESS | LIBDEFLATE_BAD_DATA | LIBDEFLATE_SHORT_OUTPUT | LIBDEFLATE_INSUFFICIENT_SPACE

definition do_block ::
  "nat \<Rightarrow> libdeflate_decompressor \<Rightarrow> InputStream \<Rightarrow> DeflateWindow
     \<Rightarrow> (bool \<times> libdeflate_decompressor \<times> InputStream \<times> DeflateWindow) outcome option" where
  "do_block fuel d in_stream out =
     (case bnd (pop_bits (ensure_bits (1 + 2 + 5 + 5 + 4) in_stream) 1) (\<lambda>(b, s1).
           bnd (pop_bits s1 2) (\<lambda>(btype, s2). Inr (b \<noteq> 0, btype, s2))) of
        Inl e \<Rightarrow> Some (Inl e)
      | Inr (is_final_block, btype, s2) \<Rightarrow>
          if btype = DEFLATE_BLOCKTYPE_DYNAMIC_HUFFMAN
          then (case prepare_dynamic d s2 of
                  Inl e \<Rightarrow> Some (Inl e)
                | Inr (d', s3) \<Rightarrow>
                    map_option (map_sum id (\<lambda>(fin, s, w). (fin, d', s, w)))
                      (decode_loop fuel d' is_final_block s3 out))
          else if btype = DEFLATE_BLOCKTYPE_UNCOMPRESSED
          then Some (bnd (do_uncompressed s2 out) (\<lambda>(s3, out'). Inr (is_final_block, d, s3, out')))
          else if btype = DEFLATE_BLOCKTYPE_STATIC_HUFFMAN
          then (case prepare_static d of
                  Inl e \<Rightarrow> Some (Inl e)
                | Inr d' \<Rightarrow>
                    map_option (map_sum id (\<lambda>(fin, s, w). (fin, d', s, w)))
                      (decode_loop fuel d' is_final_block s2 out))
          else Some (Inl (Assertion_failed ''false'')))"

section \<open>Entry point\<close>

text \<open>The \<^verbatim>\<open>do ... while (!is_final_block)\<close> loop over the blocks, bounded by \<open>fuel\<close>.\<close>

fun blocks_loop ::
  "nat \<Rightarrow> nat \<Rightarrow> libdeflate_decompressor \<Rightarrow> InputStream \<Rightarrow> DeflateWindow
     \<Rightarrow> DeflateWindow outcome option" where
  "blocks_loop 0 fuel d in_stream out_block = None"
| "blocks_loop (Suc n) fuel d in_stream out_block =
     (case do_block fuel d in_stream out_block of
        None \<Rightarrow> None
      | Some (Inl e) \<Rightarrow> Some (Inl e)
      | Some (Inr (is_final_block, d', s', out')) \<Rightarrow>
          if \<not> is_final_block then blocks_loop n fuel d' s' out' else Some (Inr out'))"

text \<open>
  \<open>libdeflate_deflate_decompress fuel d input heap out_mem out_nbytes_avail actual_out\<close>:
  \<open>input\<close> is the input buffer, \<open>heap\<close> the content of the memory that \<^verbatim>\<open>new byte[1 << 20]\<close>
  returns, \<open>out_mem\<close> the caller's output buffer of \<open>out_nbytes_avail\<close> bytes, and
  \<open>actual_out\<close> the object behind \<^verbatim>\<open>actual_out_nbytes_ret\<close> (\<open>None\<close> for a null pointer).
  The result is the returned status, the output buffer and the object behind
  \<^verbatim>\<open>actual_out_nbytes_ret\<close> after the call.
\<close>

definition libdeflate_deflate_decompress ::
  "nat \<Rightarrow> libdeflate_decompressor \<Rightarrow> byte list \<Rightarrow> mem \<Rightarrow> mem \<Rightarrow> nat \<Rightarrow> nat option
     \<Rightarrow> (libdeflate_result \<times> mem \<times> nat option) outcome option" where
  "libdeflate_deflate_decompress fuel d input heap out_mem out_nbytes_avail actual_out =
     (let in_stream = InputStream_init input;
          out_block = DeflateWindow_init 20 heap out_mem out_nbytes_avail
      in case blocks_loop fuel fuel d in_stream out_block of
           None \<Rightarrow> None
         | Some (Inl e) \<Rightarrow> Some (Inl e)
         | Some (Inr out') \<Rightarrow>
             Some (bnd (full_flush out') (\<lambda>out''.
                     Inr (LIBDEFLATE_SUCCESS, target_mem out'', actual_out))))"

section \<open>Canonical Huffman codes\<close>

text \<open>
  The reference against which the decode tables are checked, written after the spec's
  words (``the canonical Huffman decoding of that bit prefix'') and RFC 1951, 3.2.2: a
  code is given by the lengths \<open>ls s\<close> of the symbols \<open>s < n\<close>, length 0 meaning that the
  symbol has no codeword. \<open>bl_count\<close> is the number of codewords of a length, \<open>next_code\<close>
  the first codeword of a length, and the codeword of a symbol is the first codeword of
  its length plus the number of smaller symbols of the same length. A window \<open>w\<close> of
  upcoming input bits, bit 0 first, starts with the codeword of \<open>s\<close> when its first
  \<open>ls s\<close> bits are the bits of that codeword from the most significant one down.
\<close>

definition bl_count :: "(nat \<Rightarrow> nat) \<Rightarrow> nat \<Rightarrow> nat \<Rightarrow> nat" where
  "bl_count ls n l = length (filter (\<lambda>s. ls s = l) [0..<n])"

fun next_code :: "(nat \<Rightarrow> nat) \<Rightarrow> nat \<Rightarrow> nat \<Rightarrow> nat" where
  "next_code ls n 0 = 0"
| "next_code ls n (Suc l) = 2 * (next_code ls n l + (if l = 0 then 0 else bl_count ls n l))"

definition codeword :: "(nat \<Rightarrow> nat) \<Rightarrow> nat \<Rightarrow> nat \<Rightarrow> nat" where
  "codeword ls n s =
     next_code ls n (ls s) + length (filter (\<lambda>s'. ls s' = ls s) [0..<s])"

definition is_codeword_of :: "(nat \<Rightarrow> nat) \<Rightarrow> nat \<Rightarrow> nat \<Rightarrow> nat \<Rightarrow> bool" where
  "is_codeword_of ls n w s \<longleftrightarrow>
     s < n \<and> ls s \<noteq> 0 \<and>
     list_all (\<lambda>i. bit w i = bit (codeword ls n s) (ls s - 1 - i)) [0..<ls s]"

definition canonical_decode :: "(nat \<Rightarrow> nat) \<Rightarrow> nat \<Rightarrow> nat \<Rightarrow> nat option" where
  "canonical_decode ls n w = find (is_codeword_of ls n w) [0..<n]"

text \<open>
  The codespace scan in the spec's words: the remainder starts at 1 and is doubled, less
  the number of codewords of the length, for every length from 1 to the maximum. A code
  is over-subscribed when the remainder is negative at some length, and it is accepted
  when it is not over-subscribed and is complete (remainder 0), empty (remainder
  \<open>2 ^ max\<close>) or a single codeword of length 1.
\<close>

fun remainder_after :: "(nat \<Rightarrow> nat) \<Rightarrow> nat \<Rightarrow> nat \<Rightarrow> int" where
  "remainder_after ls n 0 = 1"
| "remainder_after ls n (Suc l) = 2 * remainder_after ls n l - int (bl_count ls n (Suc l))"

definition over_subscribed :: "(nat \<Rightarrow> nat) \<Rightarrow> nat \<Rightarrow> nat \<Rightarrow> bool" where
  "over_subscribed ls n M \<longleftrightarrow> list_ex (\<lambda>l. remainder_after ls n l < 0) [1..<M + 1]"

definition accepted :: "(nat \<Rightarrow> nat) \<Rightarrow> nat \<Rightarrow> nat \<Rightarrow> bool" where
  "accepted ls n M \<longleftrightarrow>
     \<not> over_subscribed ls n M \<and>
     (remainder_after ls n M = 0 \<or> remainder_after ls n M = 2 ^ M \<or>
      (remainder_after ls n M = 2 ^ (M - 1) \<and> bl_count ls n 1 = 1))"

text \<open>The main table filled with the default entry: \<^verbatim>\<open>decode_results[0]\<close> at length 1.\<close>

definition sentinel_table :: "(nat \<Rightarrow> u32) \<Rightarrow> (nat \<Rightarrow> u32) \<Rightarrow> nat \<Rightarrow> (nat \<Rightarrow> u32)" where
  "sentinel_table T0 res tb = (\<lambda>i. if i < 2 ^ tb then make_decode_table_entry (res 0) 1 else T0 i)"

text \<open>
  The entry that the decode loop reaches for a window \<open>w\<close> of upcoming bits: the index
  computation of \<open>decode_symbol\<close> (the main-table entry at the low \<open>table_bits\<close> bits and,
  behind a subtable pointer, the entry at the subtable's start plus the next bits), on
  the bits alone.
\<close>

definition table_entry :: "(nat \<Rightarrow> u32) \<Rightarrow> nat \<Rightarrow> nat \<Rightarrow> u32" where
  "table_entry table table_bits w =
     (let entry = table (take_bit table_bits w)
      in if entry AND HUFFDEC_SUBTABLE_POINTER \<noteq> 0
         then table (unat ((drop_bit HUFFDEC_RESULT_SHIFT entry AND 0xFFFF) +
                           of_nat (take_bit (unat (entry AND HUFFDEC_LENGTH_MASK))
                                     (drop_bit table_bits w))))
         else entry)"

text \<open>A small complete code, used as an example: the lengths 2, 1, 3, 3.\<close>

definition example_lens :: "nat \<Rightarrow> nat" where
  "example_lens s = (if s = 0 then 2 else if s = 1 then 1 else 3)"

section \<open>The invariant of the table builder\<close>

text \<open>
  \<open>reverse_bits l x\<close> is the number whose \<open>l\<close> low bits are those of \<open>x\<close> in the opposite
  order. \<open>offs\<close> is the position of the first symbol of a length in the sorted array,
  \<open>nth_sym ls n l j\<close> the \<open>j\<close>-th symbol of length \<open>l\<close>.
\<close>

definition reverse_bits :: "nat \<Rightarrow> nat \<Rightarrow> nat" where
  "reverse_bits n x = horner_sum of_bool 2 (map (bit x) (rev [0..<n]))"

definition offs :: "(nat \<Rightarrow> nat) \<Rightarrow> nat \<Rightarrow> nat \<Rightarrow> nat" where
  "offs ls n l = (\<Sum>x<l. bl_count ls n x)"

definition sort_inv :: "(nat \<Rightarrow> nat) \<Rightarrow> nat \<Rightarrow> nat \<Rightarrow> nat \<Rightarrow> (nat \<Rightarrow> nat) \<times> (nat \<Rightarrow> nat) \<Rightarrow> bool" where
  "sort_inv ls n M k p \<longleftrightarrow>
     (\<forall>l\<le>M. fst p l = offs ls n l + bl_count ls k l) \<and>
     (\<forall>l j. j < bl_count ls k l \<longrightarrow> snd p (offs ls n l + j) = filter (\<lambda>s. ls s = l) [0..<k] ! j)"

definition nth_sym :: "(nat \<Rightarrow> nat) \<Rightarrow> nat \<Rightarrow> nat \<Rightarrow> nat \<Rightarrow> nat" where
  "nth_sym ls n l j = filter (\<lambda>s. ls s = l) [0..<n] ! j"

text \<open>
  The code space up to the maximum length \<open>M\<close> is the interval \<open>[0, 2 ^ M)\<close>. The
  \<open>j\<close>-th codeword of length \<open>l\<close> (the ``item'' \<open>(l, j)\<close>) owns the \<open>2 ^ (M - l)\<close> values
  from \<open>Vv ls n M l j\<close> on; the codewords of length \<open>l\<close> own \<open>[Wv, Ev)\<close>. A window
  matches an item when its first \<open>l\<close> bits are the item's codeword.
\<close>

definition used_upto :: "(nat \<Rightarrow> nat) \<Rightarrow> nat \<Rightarrow> nat \<Rightarrow> nat" where
  "used_upto ls n l = next_code ls n l + (if l = 0 then 0 else bl_count ls n l)"

definition fits :: "(nat \<Rightarrow> nat) \<Rightarrow> nat \<Rightarrow> nat \<Rightarrow> bool" where
  "fits ls n M \<longleftrightarrow> (\<forall>l. 1 \<le> l \<and> l \<le> M \<longrightarrow> used_upto ls n l \<le> 2 ^ l)"

definition Wv :: "(nat \<Rightarrow> nat) \<Rightarrow> nat \<Rightarrow> nat \<Rightarrow> nat \<Rightarrow> nat" where
  "Wv ls n M l = next_code ls n l * 2 ^ (M - l)"

definition Ev :: "(nat \<Rightarrow> nat) \<Rightarrow> nat \<Rightarrow> nat \<Rightarrow> nat \<Rightarrow> nat" where
  "Ev ls n M l = used_upto ls n l * 2 ^ (M - l)"

definition Vv :: "(nat \<Rightarrow> nat) \<Rightarrow> nat \<Rightarrow> nat \<Rightarrow> nat \<Rightarrow> nat \<Rightarrow> nat" where
  "Vv ls n M l j = (next_code ls n l + j) * 2 ^ (M - l)"

definition item :: "(nat \<Rightarrow> nat) \<Rightarrow> nat \<Rightarrow> nat \<Rightarrow> nat \<Rightarrow> nat \<Rightarrow> bool" where
  "item ls n M l j \<longleftrightarrow> 1 \<le> l \<and> l \<le> M \<and> j < bl_count ls n l"

definition matches :: "(nat \<Rightarrow> nat) \<Rightarrow> nat \<Rightarrow> nat \<Rightarrow> nat \<Rightarrow> nat \<Rightarrow> bool" where
  "matches ls n w l j \<longleftrightarrow> reverse_bits l w = next_code ls n l + j"

text \<open>
  What the table holds for a window of an item already processed: a direct entry in
  the main table for a short codeword, a pointer in the main table and an entry in the
  subtable behind it for a long one. \<open>entries_ok\<close> says so for all windows below \<open>v\<close> in
  the code space, where \<open>cs\<close>, \<open>cb\<close>, \<open>cp\<close> are the start, the size in bits and the
  main-table index of the subtable under construction; all older subtables end at or
  before \<open>cs\<close>.
\<close>

definition entry_of :: "(nat \<Rightarrow> u32) \<Rightarrow> (nat \<Rightarrow> nat) \<Rightarrow> nat \<Rightarrow> nat \<Rightarrow> nat \<Rightarrow> nat \<Rightarrow> u32" where
  "entry_of res ls n l j k = make_decode_table_entry (res (nth_sym ls n l j)) (of_nat k)"

definition pointer_entry :: "nat \<Rightarrow> nat \<Rightarrow> u32" where
  "pointer_entry start nbits =
     HUFFDEC_SUBTABLE_POINTER OR make_decode_table_entry (of_nat start) (of_nat nbits)"

definition slot_ok ::
  "(nat \<Rightarrow> nat) \<Rightarrow> nat \<Rightarrow> nat \<Rightarrow> (nat \<Rightarrow> u32) \<Rightarrow> (nat \<Rightarrow> u32) \<Rightarrow> nat \<Rightarrow> nat \<Rightarrow> nat
     \<Rightarrow> nat \<Rightarrow> nat \<Rightarrow> nat \<Rightarrow> bool" where
  "slot_ok ls n tb res T cs cb cp w l j \<longleftrightarrow>
     (if l \<le> tb then T (take_bit tb w) = entry_of res ls n l j l
      else \<exists>s0 b. T (take_bit tb w) = pointer_entry s0 b \<and> l \<le> tb + b \<and> 2 ^ tb \<le> s0 \<and>
             T (s0 + take_bit b (drop_bit tb w)) = entry_of res ls n l j (l - tb) \<and>
             (s0 + 2 ^ b \<le> cs \<or> (s0 = cs \<and> b = cb \<and> take_bit tb w = cp)))"

definition entries_ok ::
  "(nat \<Rightarrow> nat) \<Rightarrow> nat \<Rightarrow> nat \<Rightarrow> nat \<Rightarrow> (nat \<Rightarrow> u32) \<Rightarrow> (nat \<Rightarrow> u32) \<Rightarrow> nat \<Rightarrow> nat \<Rightarrow> nat \<Rightarrow> nat
     \<Rightarrow> bool" where
  "entries_ok ls n M tb res T v cs cb cp \<longleftrightarrow>
     (\<forall>w l j. item ls n M l j \<and> matches ls n w l j \<and> reverse_bits M w < v
        \<longrightarrow> slot_ok ls n tb res T cs cb cp w l j)"

text \<open>
  The state of the main loop between two symbols: either no subtable has been opened,
  or the subtable of the block \<open>B\<close> of \<open>2 ^ (M - tb)\<close> code-space values is under
  construction and is large enough for all the codewords of that block.
\<close>

definition main_mode :: "nat \<Rightarrow> table_state \<Rightarrow> bool" where
  "main_mode tb st \<longleftrightarrow>
     cur_codeword_prefix st = 4294967295 \<and> cur_table_start st = 0 \<and> cur_table_bits st = tb \<and>
     num_dropped_bits st = 0"

definition sub_state :: "(nat \<Rightarrow> nat) \<Rightarrow> nat \<Rightarrow> nat \<Rightarrow> nat \<Rightarrow> nat \<Rightarrow> table_state \<Rightarrow> bool" where
  "sub_state ls n M tb B st \<longleftrightarrow>
     B < 2 ^ tb \<and> num_dropped_bits st = tb \<and> tb < codeword_len st \<and>
     cur_codeword_prefix st = reverse_bits tb B \<and> 2 ^ tb \<le> cur_table_start st \<and>
     tb + cur_table_bits st \<le> M \<and>
     cur_table_start st + 2 ^ cur_table_bits st \<le> 2 ^ tb + (B + 1) * 2 ^ (M - tb) \<and>
     (B + 1) * 2 ^ (M - tb) \<le> Ev ls n M (tb + cur_table_bits st) \<and>
     decode_table st (reverse_bits tb B) = pointer_entry (cur_table_start st) (cur_table_bits st)"

definition state_inv ::
  "(nat \<Rightarrow> nat) \<Rightarrow> nat \<Rightarrow> nat \<Rightarrow> nat \<Rightarrow> (nat \<Rightarrow> u32) \<Rightarrow> nat \<Rightarrow> table_state \<Rightarrow> bool" where
  "state_inv ls n M tb res v st \<longleftrightarrow>
     entries_ok ls n M tb res (decode_table st) v (cur_table_start st) (cur_table_bits st)
       (cur_codeword_prefix st) \<and>
     ((main_mode tb st \<and> 2 ^ (M - tb) dvd v) \<or>
      (\<exists>B. sub_state ls n M tb B st \<and> B * 2 ^ (M - tb) < v \<and> v \<le> (B + 1) * 2 ^ (M - tb)))"

text \<open>What a finished table holds for a window that starts with a codeword.\<close>

definition entry_ok ::
  "(nat \<Rightarrow> nat) \<Rightarrow> nat \<Rightarrow> nat \<Rightarrow> nat \<Rightarrow> (nat \<Rightarrow> u32) \<Rightarrow> (nat \<Rightarrow> u32) \<Rightarrow> nat \<Rightarrow> nat \<Rightarrow> nat
     \<Rightarrow> bool" where
  "entry_ok ls n M tb res T w l j \<longleftrightarrow>
     (if l \<le> tb then T (take_bit tb w) = entry_of res ls n l j l
      else \<exists>s0 b. T (take_bit tb w) = pointer_entry s0 b \<and> l \<le> tb + b \<and> 2 ^ tb \<le> s0 \<and>
             s0 + 2 ^ b \<le> 2 ^ tb + 2 ^ M \<and>
             T (s0 + take_bit b (drop_bit tb w)) = entry_of res ls n l j (l - tb))"

definition table_ok ::
  "(nat \<Rightarrow> nat) \<Rightarrow> nat \<Rightarrow> nat \<Rightarrow> nat \<Rightarrow> (nat \<Rightarrow> u32) \<Rightarrow> (nat \<Rightarrow> u32) \<Rightarrow> bool" where
  "table_ok ls n M tb res T \<longleftrightarrow>
     (\<forall>w l j. item ls n M l j \<and> matches ls n w l j \<longrightarrow> entry_ok ls n M tb res T w l j)"

section \<open>Basic facts about the failure monad\<close>

lemma bnd_Inr [simp]: "bnd (Inr x) f = f x"
  by (simp add: bnd_def)

lemma bnd_Inl [simp]: "bnd (Inl e) f = Inl e"
  by (simp add: bnd_def)

lemma bnd_weak_cong [cong]: "m = m' \<Longrightarrow> bnd m f = bnd m' f"
  by simp

lemma assertion_simps [simp]:
  "assertion e True = Inr ()"
  "assertion e False = Inl (Assertion_failed e)"
  by (simp_all add: assertion_def)

lemma assertion_eq_Inr [simp]: "assertion e b = Inr u \<longleftrightarrow> b"
  by (simp add: assertion_def)

lemma bnd_eq_Inr: "bnd m f = Inr y \<longleftrightarrow> (\<exists>x. m = Inr x \<and> f x = Inr y)"
  by (cases m) simp_all

declare fill_bits_bytewise.simps [simp del]

lemmas fill_bits_bytewise_unfold =
  fill_bits_bytewise.simps
    [of "\<lparr>bitbuf = b, bitsleft = n, overrun_count = c, in_next = p, in_bytes = bs\<rparr>" for b n c p bs]

lemmas block_header_simps =
  libdeflate_deflate_decompress_def InputStream_init_def do_block_def ensure_bits_def
  have_bits_def in_end_def fill_bits_bytewise_unfold bitbuf_length_def pop_bits_def bits_def
  remove_bits_def DEFLATE_BLOCKTYPE_DYNAMIC_HUFFMAN_def DEFLATE_BLOCKTYPE_UNCOMPRESSED_def
  DEFLATE_BLOCKTYPE_STATIC_HUFFMAN_def

section \<open>The input stream's remaining-byte count\<close>

text \<open>
  Claim C9. For every input stream, in whatever state, \<^verbatim>\<open>size()\<close> returns 0: it is computed
  as \<^verbatim>\<open>in_end - in_end\<close> and does not look at the read cursor. The checks of the
  stored-block path that use it therefore never see the number of unread bytes:
  \<^verbatim>\<open>pop_u16\<close> fails its assertion \<^verbatim>\<open>size() >= 2\<close> in every state, and \<^verbatim>\<open>copy\<close> fails
  \<^verbatim>\<open>size() >= n\<close> for every positive \<open>n\<close>.
\<close>

theorem InputStream_size_is_zero:
  "InputStream_size s = 0
     \<and> pop_u16 s = Inl (Assertion_failed ''size() >= 2'')
     \<and> InputStream_copy s (Suc n) = Inl (Assertion_failed ''size() >= n'')"
  by (simp add: InputStream_size_def pop_u16_def InputStream_copy_def)

section \<open>Stored and reserved blocks\<close>

text \<open>
  Claim C3 (the code departs from it). The claim is that the input \<^verbatim>\<open>01 00 00 FF FF\<close>, one
  empty stored block with BFINAL = 1, decompresses with status SUCCESS and no output.
  In the code the stored-block path asserts \<^verbatim>\<open>in_stream.size() >= 4\<close> right after aligning
  the input, and \<^verbatim>\<open>size()\<close> is always 0: the call aborts on this input, whatever the
  decompressor, the output buffer and its capacity are.
\<close>

theorem empty_stored_block_aborts:
  "libdeflate_deflate_decompress (Suc n) d [0x01, 0x00, 0x00, 0xFF, 0xFF] heap out_mem avail a
     = Some (Inl (Assertion_failed ''in_stream.size() >= 4''))"
  by (simp add: block_header_simps do_uncompressed_def InputStream_size_def)

text \<open>
  Claim C4 (the code departs from it). The claim is that a block header with BTYPE = 3
  makes decompression return BAD_DATA. In the code the \<^verbatim>\<open>default\<close> branch of the switch on
  the block type is \<^verbatim>\<open>assert(false)\<close>: on the one-byte input \<^verbatim>\<open>07\<close> (BFINAL = 1,
  BTYPE = 3) the call aborts and returns no status.
\<close>

theorem reserved_block_type_aborts:
  "libdeflate_deflate_decompress (Suc n) d [0x07] heap out_mem avail a
     = Some (Inl (Assertion_failed ''false''))"
  by (simp add: block_header_simps)

section \<open>Flushing the window\<close>

text \<open>
  Claim C10. Let \<open>keep_size = max (32 KiB) (next - current_blk)\<close> and let \<^verbatim>\<open>flush\<close> take its
  eviction branch (\<open>size() > keep_size\<close>). If \<open>size() \<le> 2 * keep_size\<close>, the condition of
  the assertion \<^verbatim>\<open>buffer + keep_size < next - keep_size\<close> is false and \<^verbatim>\<open>flush\<close> aborts: on
  that assertion when the preceding one (\<^verbatim>\<open>target + evict_size < target_end\<close>) holds, on
  the preceding one otherwise. Hence whenever \<^verbatim>\<open>flush\<close> returns from the eviction branch
  the window held strictly more than \<open>2 * keep_size\<close> bytes.
\<close>

theorem flush_eviction_needs_twice_keep_size:
  assumes "current_blk w \<le> wnext w" and "wnext w < 2 ^ 32"
    and "keep_size = max (2 ^ 15) (wnext w - current_blk w)"
    and "keep_size < window_size w"
  shows "(window_size w \<le> 2 * keep_size \<longrightarrow>
            \<not> int keep_size < int (wnext w) - int keep_size \<and>
            flush w = Inl (Assertion_failed
              (if target w + (window_size w - keep_size) < target_end w
               then ''buffer + keep_size < next - keep_size''
               else ''target + evict_size < target_end'')))
       \<and> (\<forall>w'. flush w = Inr w' \<longrightarrow> 2 * keep_size < window_size w)"
  using assms
  by (auto simp: flush_def window_size_def Let_def bnd_eq_Inr split: if_splits)

text \<open>
  The witness: a full window of \<open>2^20\<close> bytes whose current block began at offset \<open>2^19\<close>,
  so that \<open>keep_size = 2^19\<close> and \<open>size() = 2 * keep_size\<close>; the caller's buffer has room.
\<close>

theorem flush_eviction_needs_twice_keep_size_witness:
  "current_blk \<lparr>target_mem = \<lambda>_. 0, target = 0, target_end = 2097152, blk_count = 1,
                 current_blk = 524288, first_blk = 0, first_ref = 0, buffer = \<lambda>_. 0,
                 buffer_end = 1048576, wnext = 1048576\<rparr> \<le> (1048576 :: nat)
   \<and> (524288 :: nat) = max (2 ^ 15) (1048576 - 524288)
   \<and> flush \<lparr>target_mem = \<lambda>_. 0, target = 0, target_end = 2097152, blk_count = 1,
            current_blk = 524288, first_blk = 0, first_ref = 0, buffer = \<lambda>_. 0,
            buffer_end = 1048576, wnext = 1048576\<rparr>
       = Inl (Assertion_failed ''buffer + keep_size < next - keep_size'')"
  using flush_eviction_needs_twice_keep_size
    [of "\<lparr>target_mem = \<lambda>_. 0, target = 0, target_end = 2097152, blk_count = 1,
          current_blk = 524288, first_blk = 0, first_ref = 0, buffer = \<lambda>_. 0,
          buffer_end = 1048576, wnext = 1048576\<rparr>" 524288]
  by (simp add: window_size_def)

text \<open>
  Claim C7. Whenever \<^verbatim>\<open>flush\<close> returns, the window still holds at least
  \<open>min (size before the flush) (32 KiB)\<close> bytes, and they are the most recently written
  ones: counted back from the write cursor, the \<open>i\<close>-th byte after the flush is the \<open>i\<close>-th
  byte before it. A back-reference with an offset of at most that many bytes therefore
  reads the same byte after the flush as before.
\<close>

theorem flush_retains_recent_bytes:
  assumes "flush w = Inr w'" and "wnext w < 2 ^ 32"
  shows "min (window_size w) (2 ^ 15) \<le> window_size w'
       \<and> (\<forall>i < min (window_size w) (2 ^ 15).
             buffer w' (wnext w' - 1 - i) = buffer w (wnext w - 1 - i))"
  using assms
  by (auto simp: flush_def window_size_def Let_def bnd_eq_Inr memcpy_def split: if_splits)

text \<open>
  The witness takes the eviction branch: 70000 bytes in the window, the current block
  1000 bytes long, so 32768 bytes are kept and 37232 are written to the caller's buffer.
\<close>

theorem flush_retains_recent_bytes_witness:
  "flush \<lparr>target_mem = \<lambda>_. 0, target = 0, target_end = 100000, blk_count = 3,
          current_blk = 69000, first_blk = 0, first_ref = 0, buffer = \<lambda>p. of_nat p,
          buffer_end = 1048576, wnext = 70000\<rparr>
     = Inr \<lparr>target_mem = memcpy (\<lambda>_. 0) 0 (\<lambda>p. of_nat p) 0 37232, target = 37232,
            target_end = 100000, blk_count = 0, current_blk = 31768, first_blk = 31768,
            first_ref = 31768, buffer = memcpy (\<lambda>p. of_nat p) 0 (\<lambda>p. of_nat p) 37232 32768,
            buffer_end = 1048576, wnext = 32768\<rparr>
   \<and> (70000 :: nat) < 2 ^ 32
   \<and> min (70000 :: nat) (2 ^ 15) \<le> 32768
   \<and> memcpy (\<lambda>p. of_nat p) 0 (\<lambda>p. of_nat p) 37232 32768 (32768 - 1 - 5) = (of_nat (70000 - 1 - 5) :: byte)"
proof -
  let ?w = "\<lparr>target_mem = \<lambda>_. 0, target = 0, target_end = 100000, blk_count = 3,
          current_blk = 69000, first_blk = 0, first_ref = 0, buffer = \<lambda>p. of_nat p,
          buffer_end = 1048576, wnext = 70000\<rparr> :: DeflateWindow"
  let ?w' = "\<lparr>target_mem = memcpy (\<lambda>_. 0) 0 (\<lambda>p. of_nat p) 0 37232, target = 37232,
            target_end = 100000, blk_count = 0, current_blk = 31768, first_blk = 31768,
            first_ref = 31768, buffer = memcpy (\<lambda>p. of_nat p) 0 (\<lambda>p. of_nat p) 37232 32768,
            buffer_end = 1048576, wnext = 32768\<rparr> :: DeflateWindow"
  have run: "flush ?w = Inr ?w'"
    by (simp add: flush_def window_size_def Let_def)
  have small: "wnext ?w < 2 ^ 32"
    by simp
  have "5 < min (window_size ?w) (2 ^ 15)"
    by (simp add: window_size_def)
  with flush_retains_recent_bytes [OF run small]
  have "buffer ?w' (wnext ?w' - 1 - 5) = buffer ?w (wnext ?w - 1 - 5)"
    by blast
  with run show ?thesis
    by simp
qed

section \<open>Copying a match\<close>

declare word_copy_loop.simps [simp del] word_fill_loop.simps [simp del]
  byte_copy_loop.simps [simp del]

lemma le_bytes_le_word8:
  "le_bytes (le_word [b0, b1, b2, b3, b4, b5, b6, b7]) = [b0, b1, b2, b3, b4, b5, b6, b7]"
  apply (simp add: le_bytes_def le_word_def upt_rec)
  apply (intro conjI bit_word_eqI)
  apply (auto simp: bit_simps dest: bit_imp_le_length)
  done

lemma le_bytes_repeat_byte: "le_bytes (repeat_byte b) = [b, b, b, b, b, b, b, b]"
  unfolding le_bytes_def repeat_byte_def Let_def
  apply (simp add: upt_rec)
  apply (intro conjI bit_word_eqI)
  apply (auto simp: bit_simps dest: bit_imp_le_length)
  done

lemma upt8: "[p..<p + 8] = [p, p + 1, p + 2, p + 3, p + 4, p + 5, p + 6, p + 7]"
  by (simp add: upt_rec)

lemma copy_word_unaligned_eq:
  assumes "src + 8 \<le> buffer_end w" "dst + 8 \<le> buffer_end w"
  shows "copy_word_unaligned w src dst = Inr (w\<lparr>buffer := memcpy (buffer w) dst (buffer w) src 8\<rparr>)"
proof -
  have "store_bytes (buffer w) dst (map (buffer w) [src..<src + 8]) = memcpy (buffer w) dst (buffer w) src 8"
    by (auto simp: store_bytes_def memcpy_def fun_eq_iff)
  moreover have "le_bytes (le_word (map (buffer w) [src..<src + 8])) = map (buffer w) [src..<src + 8]"
    unfolding upt8 by (simp add: le_bytes_le_word8)
  ultimately show ?thesis
    using assms
    by (simp add: copy_word_unaligned_def load_word_unaligned_def store_word_unaligned_def WORDBYTES_def)
qed

lemma store_repeat_byte_eq:
  assumes "dst + 8 \<le> buffer_end w"
  shows "store_word_unaligned (repeat_byte b) w dst =
           Inr (w\<lparr>buffer := (\<lambda>q. if dst \<le> q \<and> q < dst + 8 then b else buffer w q)\<rparr>)"
proof -
  have "store_bytes (buffer w) dst [b, b, b, b, b, b, b, b] = (\<lambda>q. if dst \<le> q \<and> q < dst + 8 then b else buffer w q)"
    by (auto simp: store_bytes_def fun_eq_iff nth_Cons split: nat.splits)
  then show ?thesis
    using assms by (simp add: store_word_unaligned_def WORDBYTES_def le_bytes_repeat_byte)
qed

lemma lz_copied_unique:
  assumes "lz_copied off m a dst n" "lz_copied off m b dst n" "1 \<le> off" "off \<le> dst"
  shows "p < dst + n \<Longrightarrow> a p = b p"
proof (induction p rule: less_induct)
  case (less p)
  show ?case
  proof (cases "p < dst")
    case True
    with assms show ?thesis by (simp add: lz_copied_def)
  next
    case False
    then obtain i where i: "p = dst + i" "i < n"
      using less.prems by (metis add_diff_inverse_nat nat_add_left_cancel_less)
    have "a p = a (p - off)" "b p = b (p - off)"
      using assms i by (simp_all add: lz_copied_def)
    moreover have "a (p - off) = b (p - off)"
      using less.IH [of "p - off"] less.prems assms(3,4) i by simp
    ultimately show ?thesis by simp
  qed
qed

lemma lz_copied_mono: "lz_copied off m a dst n \<Longrightarrow> k \<le> n \<Longrightarrow> lz_copied off m a dst k"
  by (simp add: lz_copied_def)

lemma byte_by_byte_copy_snoc:
  "byte_by_byte_copy m src dst (Suc n) =
     (byte_by_byte_copy m src dst n)(dst + n := byte_by_byte_copy m src dst n (src + n))"
proof (induction n arbitrary: m src dst)
  case 0
  show ?case by simp
next
  case (Suc n)
  have "byte_by_byte_copy m src dst (Suc (Suc n)) = byte_by_byte_copy (m(dst := m src)) (Suc src) (Suc dst) (Suc n)"
    by simp
  also have "\<dots> = (byte_by_byte_copy (m(dst := m src)) (Suc src) (Suc dst) n)
      (Suc dst + n := byte_by_byte_copy (m(dst := m src)) (Suc src) (Suc dst) n (Suc src + n))"
    by (rule Suc.IH)
  finally show ?case by simp
qed

lemma byte_by_byte_copy_lz:
  assumes "1 \<le> off" "off \<le> dst"
  shows "lz_copied off m (byte_by_byte_copy m (dst - off) dst n) dst n"
proof (induction n)
  case 0
  show ?case by (simp add: lz_copied_def)
next
  case (Suc n)
  then show ?case
    unfolding byte_by_byte_copy_snoc
    using assms by (auto simp: lz_copied_def less_Suc_eq)
qed


lemma lz_copied_word:
  assumes "lz_copied off m M dst k" "8 \<le> off" "off \<le> dst"
  shows "lz_copied off m (memcpy M (dst + k) M (dst + k - off) 8) dst (k + 8)"
  using assms by (auto simp: lz_copied_def memcpy_def)

lemma lz_copied_byte:
  assumes "lz_copied off m M dst k" "1 \<le> off" "off \<le> dst"
  shows "lz_copied off m (M(dst + k := M (dst + k - off))) dst (Suc k)"
  using assms by (auto simp: lz_copied_def less_Suc_eq)

lemma word_copy_loop_ok:
  assumes "8 \<le> off" "off \<le> dst" "lz_copied off m (buffer w) dst k"
    and "dst + k + 8 \<le> buffer_end w" "dst_end + 7 \<le> buffer_end w"
  shows "\<exists>M k'. word_copy_loop w (dst + k - off) (dst + k) dst_end = Inr (w\<lparr>buffer := M\<rparr>)
           \<and> lz_copied off m M dst k' \<and> dst_end \<le> dst + k' \<and> k + 8 \<le> k'"
  using assms
proof (induction "dst_end - (dst + k)" arbitrary: w k rule: less_induct)
  case less
  let ?M1 = "memcpy (buffer w) (dst + k) (buffer w) (dst + k - off) 8"
  let ?w1 = "w\<lparr>buffer := ?M1\<rparr>"
  have step: "copy_word_unaligned w (dst + k - off) (dst + k) = Inr ?w1"
    using less.prems by (intro copy_word_unaligned_eq) auto
  have lz1: "lz_copied off m ?M1 dst (k + 8)"
    using less.prems by (intro lz_copied_word) auto
  show ?case
  proof (cases "dst + k + 8 < dst_end")
    case True
    have "\<exists>M k'. word_copy_loop ?w1 (dst + (k + 8) - off) (dst + (k + 8)) dst_end = Inr (?w1\<lparr>buffer := M\<rparr>)
           \<and> lz_copied off m M dst k' \<and> dst_end \<le> dst + k' \<and> (k + 8) + 8 \<le> k'"
      using less.prems True lz1 by (intro less.hyps) auto
    then obtain M k' where r: "word_copy_loop ?w1 (dst + (k + 8) - off) (dst + (k + 8)) dst_end = Inr (?w1\<lparr>buffer := M\<rparr>)"
      "lz_copied off m M dst k'" "dst_end \<le> dst + k'" "(k + 8) + 8 \<le> k'"
      by blast
    have eq: "dst + k - off + 8 = dst + (k + 8) - off" "dst + k + 8 = dst + (k + 8)"
      using less.prems by auto
    have "word_copy_loop w (dst + k - off) (dst + k) dst_end = Inr (w\<lparr>buffer := M\<rparr>)"
      using True step r(1) by (subst word_copy_loop.simps) (simp add: WORDBYTES_def eq)
    with r show ?thesis by (intro exI [of _ M] exI [of _ k']) auto
  next
    case False
    then have "word_copy_loop w (dst + k - off) (dst + k) dst_end = Inr ?w1"
      using step by (subst word_copy_loop.simps) (simp add: WORDBYTES_def)
    with lz1 False show ?thesis by (intro exI [of _ ?M1] exI [of _ "k + 8"]) auto
  qed
qed

lemma byte_copy_loop_ok:
  assumes "1 \<le> off" "off \<le> dst" "lz_copied off m (buffer w) dst k"
    and "dst + k < buffer_end w" "dst_end \<le> buffer_end w"
  shows "\<exists>M k'. byte_copy_loop w (dst + k - off) (dst + k) dst_end = Inr (w\<lparr>buffer := M\<rparr>)
           \<and> lz_copied off m M dst k' \<and> dst_end \<le> dst + k' \<and> k + 1 \<le> k'"
  using assms
proof (induction "dst_end - (dst + k)" arbitrary: w k rule: less_induct)
  case less
  let ?M1 = "(buffer w)(dst + k := buffer w (dst + k - off))"
  let ?w1 = "w\<lparr>buffer := ?M1\<rparr>"
  have step: "copy_byte w (dst + k - off) (dst + k) = Inr ?w1"
    using less.prems by (simp add: copy_byte_def)
  have lz1: "lz_copied off m ?M1 dst (Suc k)"
    using less.prems by (intro lz_copied_byte) auto
  show ?case
  proof (cases "dst + k + 1 < dst_end")
    case True
    have "\<exists>M k'. byte_copy_loop ?w1 (dst + Suc k - off) (dst + Suc k) dst_end = Inr (?w1\<lparr>buffer := M\<rparr>)
           \<and> lz_copied off m M dst k' \<and> dst_end \<le> dst + k' \<and> Suc k + 1 \<le> k'"
      using less.prems True lz1 by (intro less.hyps) auto
    then obtain M k' where r: "byte_copy_loop ?w1 (dst + Suc k - off) (dst + Suc k) dst_end = Inr (?w1\<lparr>buffer := M\<rparr>)"
      "lz_copied off m M dst k'" "dst_end \<le> dst + k'" "Suc k + 1 \<le> k'"
      by blast
    have eq: "dst + k - off + 1 = dst + Suc k - off"
      using less.prems by auto
    have "byte_copy_loop w (dst + k - off) (dst + k) dst_end = Inr (w\<lparr>buffer := M\<rparr>)"
      using True step r(1) eq by (subst byte_copy_loop.simps) simp
    with r show ?thesis by (intro exI [of _ M] exI [of _ k']) auto
  next
    case False
    then have "byte_copy_loop w (dst + k - off) (dst + k) dst_end = Inr ?w1"
      using step by (subst byte_copy_loop.simps) simp
    with lz1 False show ?thesis by (intro exI [of _ ?M1] exI [of _ "Suc k"]) auto
  qed
qed

lemma word_fill_loop_ok:
  assumes "\<forall>p<dst. buffer w p = m p" "\<forall>i<k. buffer w (dst + i) = b"
    and "dst + k + 8 \<le> buffer_end w" "dst_end + 7 \<le> buffer_end w"
  shows "\<exists>M k'. word_fill_loop (repeat_byte b) w (dst + k) dst_end = Inr (w\<lparr>buffer := M\<rparr>)
           \<and> (\<forall>p<dst. M p = m p) \<and> (\<forall>i<k'. M (dst + i) = b) \<and> dst_end \<le> dst + k' \<and> k + 8 \<le> k'"
  using assms
proof (induction "dst_end - (dst + k)" arbitrary: w k rule: less_induct)
  case less
  let ?M1 = "\<lambda>q. if dst + k \<le> q \<and> q < dst + k + 8 then b else buffer w q"
  let ?w1 = "w\<lparr>buffer := ?M1\<rparr>"
  have step: "store_word_unaligned (repeat_byte b) w (dst + k) = Inr ?w1"
    using less.prems by (intro store_repeat_byte_eq) auto
  have inv1: "\<forall>p<dst. ?M1 p = m p" "\<forall>i<k + 8. ?M1 (dst + i) = b"
    using less.prems by auto
  show ?case
  proof (cases "dst + k + 8 < dst_end")
    case True
    have "\<exists>M k'. word_fill_loop (repeat_byte b) ?w1 (dst + (k + 8)) dst_end = Inr (?w1\<lparr>buffer := M\<rparr>)
           \<and> (\<forall>p<dst. M p = m p) \<and> (\<forall>i<k'. M (dst + i) = b) \<and> dst_end \<le> dst + k' \<and> (k + 8) + 8 \<le> k'"
      using less.prems(3,4) True inv1 by (intro less.hyps) auto
    then obtain M k' where r: "word_fill_loop (repeat_byte b) ?w1 (dst + (k + 8)) dst_end = Inr (?w1\<lparr>buffer := M\<rparr>)"
      "\<forall>p<dst. M p = m p" "\<forall>i<k'. M (dst + i) = b" "dst_end \<le> dst + k'" "(k + 8) + 8 \<le> k'"
      by blast
    have eq: "dst + k + 8 = dst + (k + 8)"
      by simp
    have "word_fill_loop (repeat_byte b) w (dst + k) dst_end = Inr (w\<lparr>buffer := M\<rparr>)"
      using True step r(1) by (subst word_fill_loop.simps) (simp add: WORDBYTES_def eq)
    with r show ?thesis by (intro exI [of _ M] exI [of _ k']) auto
  next
    case False
    then have "word_fill_loop (repeat_byte b) w (dst + k) dst_end = Inr ?w1"
      using step by (subst word_fill_loop.simps) (simp add: WORDBYTES_def)
    with inv1 False show ?thesis by (intro exI [of _ ?M1] exI [of _ "k + 8"]) auto
  qed
qed


lemma bytewise_copy_ok:
  assumes "1 \<le> off" "off \<le> dst" "dst + 3 \<le> buffer_end w" "dst_end \<le> buffer_end w"
  shows "\<exists>M k. bytewise_copy w (dst - off) dst dst_end = Inr (w\<lparr>buffer := M\<rparr>)
           \<and> lz_copied off (buffer w) M dst k \<and> dst_end \<le> dst + k"
proof -
  let ?m = "buffer w"
  let ?M1 = "?m(dst + 0 := ?m (dst + 0 - off))"
  let ?M2 = "?M1(dst + 1 := ?M1 (dst + 1 - off))"
  let ?w2 = "w\<lparr>buffer := ?M2\<rparr>"
  have lz0: "lz_copied off ?m ?m dst 0"
    by (simp add: lz_copied_def)
  have lz1: "lz_copied off ?m ?M1 dst (Suc 0)"
    using lz0 assms by (intro lz_copied_byte) auto
  have lz2: "lz_copied off ?m ?M2 dst 2"
    using lz_copied_byte [OF lz1 assms(1,2)] by (simp add: numeral_2_eq_2)
  have c1: "copy_byte w (dst - off) dst = Inr (w\<lparr>buffer := ?M1\<rparr>)"
    using assms by (simp add: copy_byte_def)
  have c2: "copy_byte (w\<lparr>buffer := ?M1\<rparr>) (dst - off + 1) (dst + 1) = Inr ?w2"
    using assms by (simp add: copy_byte_def Suc_diff_le)
  have "\<exists>M k'. byte_copy_loop ?w2 (dst + 2 - off) (dst + 2) dst_end = Inr (?w2\<lparr>buffer := M\<rparr>)
           \<and> lz_copied off ?m M dst k' \<and> dst_end \<le> dst + k' \<and> 2 + 1 \<le> k'"
    using lz2 assms by (intro byte_copy_loop_ok) auto
  then obtain M k' where r: "byte_copy_loop ?w2 (dst + 2 - off) (dst + 2) dst_end = Inr (w\<lparr>buffer := M\<rparr>)"
    "lz_copied off ?m M dst k'" "dst_end \<le> dst + k'"
    by auto
  have eq: "dst - off + 2 = dst + 2 - off"
    using assms by simp
  have "bytewise_copy w (dst - off) dst dst_end = Inr (w\<lparr>buffer := M\<rparr>)"
    using c1 c2 r(1) eq by (simp add: bytewise_copy_def)
  with r show ?thesis by blast
qed

lemma copy_match_bytes_ok:
  assumes "wnext w \<le> buffer_end w" and "1 \<le> offset" and "offset \<le> wnext w"
    and "1 \<le> len" and "len \<le> buffer_end w - wnext w"
    and "3 \<le> len \<or> 3 \<le> buffer_end w - wnext w"
  shows "\<exists>M k. copy_match_bytes w len offset = Inr (w\<lparr>buffer := M\<rparr>)
           \<and> lz_copied offset (buffer w) M (wnext w) k \<and> len \<le> k"
proof -
  let ?n = "wnext w" and ?m = "buffer w"
  have init: "lz_copied offset ?m (buffer w) ?n 0"
    by (simp add: lz_copied_def)
  have wb: "w\<lparr>buffer := buffer w\<rparr> = w"
    by simp
  consider
      (fast) "len \<le> 24" "8 \<le> offset" "len + 24 \<le> buffer_end w - ?n"
    | (words) "\<not> (len \<le> 24 \<and> 8 \<le> offset \<and> len + 24 \<le> buffer_end w - ?n)"
        "?n + len + 7 \<le> buffer_end w" "8 \<le> offset"
    | (fill) "\<not> (len \<le> 24 \<and> 8 \<le> offset \<and> len + 24 \<le> buffer_end w - ?n)"
        "?n + len + 7 \<le> buffer_end w" "offset = 1"
    | (slow) "\<not> (len \<le> 24 \<and> 8 \<le> offset \<and> len + 24 \<le> buffer_end w - ?n)"
        "?n + len + 7 \<le> buffer_end w" "offset < 8" "offset \<noteq> 1"
    | (tail) "\<not> (len \<le> 24 \<and> 8 \<le> offset \<and> len + 24 \<le> buffer_end w - ?n)"
        "\<not> ?n + len + 7 \<le> buffer_end w"
    by linarith
  then show ?thesis
  proof cases
    case fast
    let ?M1 = "memcpy ?m (?n + 0) ?m (?n + 0 - offset) 8"
    let ?M2 = "memcpy ?M1 (?n + 8) ?M1 (?n + 8 - offset) 8"
    let ?M3 = "memcpy ?M2 (?n + 16) ?M2 (?n + 16 - offset) 8"
    have lz1: "lz_copied offset ?m ?M1 ?n (0 + 8)"
      using init fast assms by (intro lz_copied_word) auto
    have lz2: "lz_copied offset ?m ?M2 ?n (8 + 8)"
      using lz1 fast assms by (intro lz_copied_word) auto
    have lz3: "lz_copied offset ?m ?M3 ?n (16 + 8)"
      using lz2 fast assms by (intro lz_copied_word) auto
    have c1: "copy_word_unaligned w (?n - offset) ?n = Inr (w\<lparr>buffer := ?M1\<rparr>)"
      using fast assms copy_word_unaligned_eq [of "?n - offset" w ?n] by simp
    have c2: "copy_word_unaligned (w\<lparr>buffer := ?M1\<rparr>) (?n - offset + 8) (?n + 8) = Inr (w\<lparr>buffer := ?M2\<rparr>)"
      using fast assms copy_word_unaligned_eq [of "?n - offset + 8" "w\<lparr>buffer := ?M1\<rparr>" "?n + 8"] by simp
    have c3: "copy_word_unaligned (w\<lparr>buffer := ?M2\<rparr>) (?n - offset + 16) (?n + 16) = Inr (w\<lparr>buffer := ?M3\<rparr>)"
      using fast assms copy_word_unaligned_eq [of "?n - offset + 16" "w\<lparr>buffer := ?M2\<rparr>" "?n + 16"] by simp
    have "copy_match_bytes w len offset = Inr (w\<lparr>buffer := ?M3\<rparr>)"
      using fast c1 c2 c3 by (simp add: copy_match_bytes_def WORDBYTES_def Let_def)
    with lz3 fast show ?thesis
      by (intro exI [of _ ?M3] exI [of _ 24]) auto
  next
    case words
    let ?M1 = "memcpy ?m (?n + 0) ?m (?n + 0 - offset) 8"
    let ?w1 = "w\<lparr>buffer := ?M1\<rparr>"
    have lz1: "lz_copied offset ?m ?M1 ?n (0 + 8)"
      using init words assms by (intro lz_copied_word) auto
    have c1: "copy_word_unaligned w (?n - offset) ?n = Inr ?w1"
      using words assms copy_word_unaligned_eq [of "?n - offset" w ?n] by simp
    show ?thesis
    proof (cases "?n + 8 < ?n + len")
      case True
      have "\<exists>M k'. word_copy_loop ?w1 (?n + 8 - offset) (?n + 8) (?n + len) = Inr (?w1\<lparr>buffer := M\<rparr>)
           \<and> lz_copied offset ?m M ?n k' \<and> ?n + len \<le> ?n + k' \<and> 8 + 8 \<le> k'"
        using lz1 words assms True by (intro word_copy_loop_ok) auto
      then obtain M k' where r: "word_copy_loop ?w1 (?n + 8 - offset) (?n + 8) (?n + len) = Inr (w\<lparr>buffer := M\<rparr>)"
        "lz_copied offset ?m M ?n k'" "len \<le> k'"
        by auto
      have eq: "?n - offset + 8 = ?n + 8 - offset"
        using assms by simp
      have "copy_match_bytes w len offset = Inr (w\<lparr>buffer := M\<rparr>)"
        using words c1 True r(1) eq by (auto simp: copy_match_bytes_def WORDBYTES_def Let_def)
      with r show ?thesis by blast
    next
      case False
      have "copy_match_bytes w len offset = Inr ?w1"
        using words c1 False by (auto simp: copy_match_bytes_def WORDBYTES_def Let_def)
      with lz1 False show ?thesis
        by (intro exI [of _ ?M1] exI [of _ 8]) auto
    qed
  next
    case fill
    let ?b = "?m (?n - 1)"
    have "\<exists>M k'. word_fill_loop (repeat_byte ?b) w (?n + 0) (?n + len) = Inr (w\<lparr>buffer := M\<rparr>)
           \<and> (\<forall>p<?n. M p = ?m p) \<and> (\<forall>i<k'. M (?n + i) = ?b) \<and> ?n + len \<le> ?n + k' \<and> 0 + 8 \<le> k'"
      using fill assms by (intro word_fill_loop_ok) auto
    then obtain M k' where r: "word_fill_loop (repeat_byte ?b) w ?n (?n + len) = Inr (w\<lparr>buffer := M\<rparr>)"
      "\<forall>p<?n. M p = ?m p" "\<forall>i<k'. M (?n + i) = ?b" "len \<le> k'"
      by auto
    have "lz_copied offset ?m M ?n k'"
      unfolding lz_copied_def
    proof (intro conjI allI impI)
      fix p assume "p < ?n" then show "M p = ?m p" using r(2) by simp
    next
      fix i assume i: "i < k'"
      show "M (?n + i) = M (?n + i - offset)"
      proof (cases i)
        case 0
        then show ?thesis using r(2) r(3) [rule_format, of 0] i fill assms by simp
      next
        case (Suc j)
        then have "M (?n + i - offset) = M (?n + j)" using fill by simp
        moreover have "M (?n + j) = ?b" "M (?n + i) = ?b"
          using r(3) i Suc by auto
        ultimately show ?thesis by simp
      qed
    qed
    moreover have "copy_match_bytes w len offset = Inr (w\<lparr>buffer := M\<rparr>)"
      using fill r(1) by (auto simp: copy_match_bytes_def WORDBYTES_def Let_def)
    ultimately show ?thesis using r(4) by blast
  next
    case slow
    have three: "?n + 3 \<le> buffer_end w"
      using slow assms by linarith
    have "\<exists>M k. bytewise_copy w (?n - offset) ?n (?n + len) = Inr (w\<lparr>buffer := M\<rparr>)
           \<and> lz_copied offset ?m M ?n k \<and> ?n + len \<le> ?n + k"
      using assms three by (intro bytewise_copy_ok) auto
    then show ?thesis
      using slow by (auto simp: copy_match_bytes_def WORDBYTES_def Let_def)
  next
    case tail
    have three: "?n + 3 \<le> buffer_end w"
      using tail assms by linarith
    have "\<exists>M k. bytewise_copy w (?n - offset) ?n (?n + len) = Inr (w\<lparr>buffer := M\<rparr>)
           \<and> lz_copied offset ?m M ?n k \<and> ?n + len \<le> ?n + k"
      using assms three by (intro bytewise_copy_ok) auto
    then show ?thesis
      using tail by (auto simp: copy_match_bytes_def WORDBYTES_def Let_def)
  qed
qed


lemma available_eq:
  "wnext w \<le> buffer_end w \<Longrightarrow> buffer_end w < 2 ^ 32 \<Longrightarrow> available w = buffer_end w - wnext w"
  by (simp add: available_def nat_diff_distrib' of_nat_diff)

text \<open>
  Claim C2, as the code has it. Let the window be well formed (the write cursor inside the
  buffer, the buffer smaller than \<open>2^32\<close> bytes), \<open>offset\<close> in \<open>[1, size()]\<close>, \<open>length\<close> in
  \<open>[1, 258]\<close> with \<open>length \<le> available()\<close>, and let either \<open>length \<ge> 3\<close> or at least three
  bytes be available. Then \<^verbatim>\<open>copy_match\<close> returns; the write cursor has advanced by exactly
  \<open>length\<close>; the bytes at \<open>next .. next + length - 1\<close> are those of a byte-by-byte copy from
  \<open>next - offset\<close> (so a later byte sees the bytes written before it when
  \<open>offset < length\<close>); and the bytes before the old cursor are unchanged. The proof goes
  through the three-word fast path, the word-granular copy, the broadcast for
  \<open>offset = 1\<close> and both byte-wise paths.
\<close>

theorem copy_match_is_byte_by_byte_copy:
  assumes "wnext w \<le> buffer_end w" and "buffer_end w < 2 ^ 32"
    and "1 \<le> offset" and "offset \<le> window_size w"
    and "1 \<le> len" and "len \<le> 258" and "len \<le> available w"
    and "3 \<le> len \<or> 3 \<le> available w"
  shows "\<exists>w'. copy_match w len offset = Inr w'
           \<and> wnext w' = wnext w + len
           \<and> (\<forall>i<len. buffer w' (wnext w + i) =
                 byte_by_byte_copy (buffer w) (wnext w - offset) (wnext w) len (wnext w + i))
           \<and> (\<forall>p<wnext w. buffer w' p = buffer w p)"
proof -
  define w1 where "w1 = (if first_ref w > wnext w - offset then w\<lparr>first_ref := wnext w - offset\<rparr> else w)"
  have w1: "buffer w1 = buffer w" "wnext w1 = wnext w" "buffer_end w1 = buffer_end w"
    by (simp_all add: w1_def)
  have av: "available w = buffer_end w - wnext w"
    using assms by (simp add: available_eq)
  have sz: "window_size w = wnext w"
    using assms by (simp add: window_size_def)
  have "\<exists>M k. copy_match_bytes w1 len offset = Inr (w1\<lparr>buffer := M\<rparr>)
           \<and> lz_copied offset (buffer w1) M (wnext w1) k \<and> len \<le> k"
    using assms av sz w1 by (intro copy_match_bytes_ok) auto
  then obtain M k where r: "copy_match_bytes w1 len offset = Inr (w1\<lparr>buffer := M\<rparr>)"
    "lz_copied offset (buffer w) M (wnext w) k" "len \<le> k"
    using w1 by auto
  have lzM: "lz_copied offset (buffer w) M (wnext w) len"
    using r(2,3) by (rule lz_copied_mono)
  have lzR: "lz_copied offset (buffer w) (byte_by_byte_copy (buffer w) (wnext w - offset) (wnext w) len) (wnext w) len"
    using assms sz by (intro byte_by_byte_copy_lz) auto
  have same: "M p = byte_by_byte_copy (buffer w) (wnext w - offset) (wnext w) len p" if "p < wnext w + len" for p
    using lzM lzR _ _ that by (rule lz_copied_unique) (use assms sz in auto)
  have run: "copy_match w len offset = Inr (w1\<lparr>buffer := M, wnext := wnext w + len\<rparr>)"
    using assms r(1) av sz w1 by (simp add: copy_match_def w1_def [symmetric] Let_def)
  have frame: "\<forall>p<wnext w. M p = buffer w p"
    using lzM by (simp add: lz_copied_def)
  show ?thesis
    using run same frame by (intro exI [of _ "w1\<lparr>buffer := M, wnext := wnext w + len\<rparr>"]) simp
qed


text \<open>
  The claim as stated, for every \<open>length\<close> in \<open>[1, 258]\<close>, fails for a match of length 1
  with one byte available: the byte-wise path writes two bytes before it tests
  \<^verbatim>\<open>dst < dst_end\<close>, so the second store leaves the window buffer.
\<close>

theorem copy_match_short_length_counterexample:
  "(1 :: nat) \<le> window_size \<lparr>target_mem = \<lambda>_. 0, target = 0, target_end = 2097152, blk_count = 0,
        current_blk = 0, first_blk = 0, first_ref = 0, buffer = \<lambda>_. 0,
        buffer_end = 1048576, wnext = 1048575\<rparr>
   \<and> (1 :: nat) \<le> available \<lparr>target_mem = \<lambda>_. 0, target = 0, target_end = 2097152, blk_count = 0,
        current_blk = 0, first_blk = 0, first_ref = 0, buffer = \<lambda>_. 0,
        buffer_end = 1048576, wnext = 1048575\<rparr>
   \<and> copy_match \<lparr>target_mem = \<lambda>_. 0, target = 0, target_end = 2097152, blk_count = 0,
        current_blk = 0, first_blk = 0, first_ref = 0, buffer = \<lambda>_. 0,
        buffer_end = 1048576, wnext = 1048575\<rparr> 1 1 = Inl Out_of_bounds"
  by (simp add: copy_match_def copy_match_bytes_def bytewise_copy_def copy_byte_def
      available_def window_size_def WORDBYTES_def)

text \<open>
  The witness is the match of the spec's fourth scenario: after \<open>A\<close>, \<open>B\<close>, a match of
  length 6 at offset 2, which overlaps itself.
\<close>

theorem copy_match_is_byte_by_byte_copy_witness:
  "\<exists>w'. copy_match \<lparr>target_mem = \<lambda>_. 0, target = 0, target_end = 2097152, blk_count = 0,
            current_blk = 0, first_blk = 0, first_ref = 0, buffer = (\<lambda>_. 0)(0 := 0x41, 1 := 0x42),
            buffer_end = 1048576, wnext = 2\<rparr> 6 2 = Inr w'
        \<and> wnext w' = 8 \<and> buffer w' 6 = 0x41 \<and> buffer w' 7 = 0x42"
proof -
  let ?w = "\<lparr>target_mem = \<lambda>_. 0, target = 0, target_end = 2097152, blk_count = 0,
            current_blk = 0, first_blk = 0, first_ref = 0, buffer = (\<lambda>_. 0)(0 := 0x41, 1 := 0x42),
            buffer_end = 1048576, wnext = 2\<rparr> :: DeflateWindow"
  have "\<exists>w'. copy_match ?w 6 2 = Inr w'
           \<and> wnext w' = wnext ?w + 6
           \<and> (\<forall>i<6. buffer w' (wnext ?w + i) =
                 byte_by_byte_copy (buffer ?w) (wnext ?w - 2) (wnext ?w) 6 (wnext ?w + i))
           \<and> (\<forall>p<wnext ?w. buffer w' p = buffer ?w p)"
    by (rule copy_match_is_byte_by_byte_copy) (simp_all add: window_size_def available_def)
  then obtain w' where w': "copy_match ?w 6 2 = Inr w'" "wnext w' = wnext ?w + 6"
    and bytes: "\<forall>i<6. buffer w' (wnext ?w + i) =
                 byte_by_byte_copy (buffer ?w) (wnext ?w - 2) (wnext ?w) 6 (wnext ?w + i)"
    by blast
  have six: "(6 :: nat) = Suc (Suc (Suc (Suc (Suc (Suc 0)))))"
    by simp
  have "byte_by_byte_copy ((\<lambda>_. 0)(0 := 0x41, 1 := 0x42)) 0 2 6 6 = 0x41"
       "byte_by_byte_copy ((\<lambda>_. 0)(0 := 0x41, 1 := 0x42)) 0 2 6 7 = 0x42"
    unfolding six by simp_all
  with bytes [rule_format, of 4] bytes [rule_format, of 5]
  have "buffer w' 6 = 0x41" "buffer w' 7 = 0x42"
    by simp_all
  with w' show ?thesis
    by auto
qed

section \<open>Counting and sorting the symbols\<close>

lemma count_lens_eq: "count_lens ls n l = bl_count ls n l"
proof -
  have "fold (\<lambda>sym c. c(ls sym := c (ls sym) + 1)) [0..<n] c0 l
          = c0 l + length (filter (\<lambda>s. ls s = l) [0..<n])" for c0
    by (induction n arbitrary: c0) auto
  then show ?thesis by (simp add: count_lens_def bl_count_def)
qed

lemma init_offsets_eq:
  "l \<le> M \<Longrightarrow> init_offsets (bl_count ls n) M l = offs ls n l"
proof (induction M arbitrary: l)
  case 0
  then show ?case by (simp add: init_offsets_def offs_def)
next
  case (Suc M)
  define F where "F = init_offsets (bl_count ls n) M"
  have step: "init_offsets (bl_count ls n) (Suc M) = F(M + 1 := F M + bl_count ls n M)"
    by (simp add: init_offsets_def F_def)
  show ?case
  proof (cases "l = Suc M")
    case True
    have "F M = offs ls n M" unfolding F_def by (rule Suc.IH) simp
    then show ?thesis unfolding step using True by (simp add: offs_def)
  next
    case False
    then have "l \<le> M" using Suc.prems by simp
    then have "F l = offs ls n l" unfolding F_def by (rule Suc.IH)
    then show ?thesis unfolding step using False by simp
  qed
qed

lemma offs_Suc: "offs ls n (Suc l) = offs ls n l + bl_count ls n l"
  by (simp add: offs_def)

lemma offs_mono: "l \<le> l' \<Longrightarrow> offs ls n l \<le> offs ls n l'"
  unfolding offs_def by (intro sum_mono2) auto

lemma offs_block_le: "l < l' \<Longrightarrow> offs ls n l + bl_count ls n l \<le> offs ls n l'"
  using offs_mono [of "Suc l" l' ls n] by (simp add: offs_Suc)

lemma bl_count_Suc:
  "bl_count ls (Suc k) l = bl_count ls k l + (if ls k = l then 1 else 0)"
  by (simp add: bl_count_def)

lemma bl_count_mono: "k \<le> n \<Longrightarrow> bl_count ls k l \<le> bl_count ls n l"
proof (induction n)
  case 0 then show ?case by simp
next
  case (Suc n) then show ?case by (cases "k = Suc n") (auto simp: bl_count_Suc)
qed

lemma offs_total:
  assumes "\<forall>s<n. ls s \<le> M"
  shows "offs ls n (Suc M) = n"
  using assms
proof (induction n)
  case 0
  show ?case by (simp add: offs_def bl_count_def)
next
  case (Suc n)
  have "offs ls (Suc n) (Suc M) = (\<Sum>x<Suc M. bl_count ls n x + (if ls n = x then 1 else 0))"
    unfolding offs_def by (rule sum.cong) (simp_all add: bl_count_Suc)
  also have "\<dots> = offs ls n (Suc M) + (\<Sum>x<Suc M. if ls n = x then 1 else 0)"
    unfolding offs_def by (simp only: sum.distrib)
  also have "(\<Sum>x<Suc M. if ls n = x then 1 else 0) = (1::nat)"
  proof -
    have "ls n < Suc M" using Suc.prems by (simp add: less_Suc_eq_le)
    then show ?thesis by (simp add: sum.delta)
  qed
  finally show ?case using Suc by simp
qed

lemma count_lens_fun: "count_lens ls n = bl_count ls n"
  by (rule ext) (rule count_lens_eq)

lemma sort_slot_inj:
  assumes "offs ls n l + j = offs ls n l' + j'" "j < bl_count ls n l" "j' < bl_count ls n l'"
  shows "l = l' \<and> j = j'"
proof -
  have "l = l'"
  proof (rule ccontr)
    assume "l \<noteq> l'"
    then consider "l < l'" | "l' < l" by linarith
    then show False
    proof cases
      case 1
      from offs_block_le [OF 1, of ls n] assms show False by linarith
    next
      case 2
      from offs_block_le [OF 2, of ls n] assms show False by linarith
    qed
  qed
  with assms show ?thesis by simp
qed

lemma sort_syms_inv:
  assumes "\<forall>s<n. ls s \<le> M" "\<forall>l\<le>M. off0 l = offs ls n l" "k \<le> n"
  shows "sort_inv ls n M k (sort_syms ls k off0)"
  using assms(3)
proof (induction k)
  case 0
  show ?case using assms(2) by (simp add: sort_inv_def sort_syms_def bl_count_def)
next
  case (Suc k)
  obtain off sorted where p: "sort_syms ls k off0 = (off, sorted)"
    by (cases "sort_syms ls k off0")
  have inv: "sort_inv ls n M k (off, sorted)"
    using Suc p by simp
  let ?l0 = "ls k"
  have l0: "?l0 \<le> M" using assms(1) Suc.prems by simp
  have step: "sort_syms ls (Suc k) off0 = (off(?l0 := off ?l0 + 1), sorted(off ?l0 := k))"
    using p by (simp add: sort_syms_def)
  have offl0: "off ?l0 = offs ls n ?l0 + bl_count ls k ?l0"
    using inv l0 by (simp add: sort_inv_def)
  have lt: "bl_count ls k ?l0 < bl_count ls n ?l0"
    using bl_count_mono [of "Suc k" n ls ?l0] Suc.prems by (simp add: bl_count_Suc)
  show ?case
    unfolding step sort_inv_def fst_conv snd_conv
  proof (intro conjI allI impI)
    fix l assume "l \<le> M"
    then show "(off(?l0 := off ?l0 + 1)) l = offs ls n l + bl_count ls (Suc k) l"
      using inv by (simp add: sort_inv_def bl_count_Suc)
  next
    fix l j assume j: "j < bl_count ls (Suc k) l"
    have jn: "j < bl_count ls n l"
      using j bl_count_mono [of "Suc k" n ls l] Suc.prems by simp
    show "(sorted(off ?l0 := k)) (offs ls n l + j) = filter (\<lambda>s. ls s = l) [0..<Suc k] ! j"
    proof (cases "l = ?l0 \<and> j = bl_count ls k ?l0")
      case True
      then show ?thesis
        using offl0 by (simp add: bl_count_def nth_append)
    next
      case False
      have ne: "offs ls n l + j \<noteq> off ?l0"
        using sort_slot_inj [OF _ jn lt] False offl0 by auto
      have jk: "j < bl_count ls k l"
        using j False by (auto simp: bl_count_Suc split: if_splits)
      then have "sorted (offs ls n l + j) = filter (\<lambda>s. ls s = l) [0..<k] ! j"
        using inv by (simp add: sort_inv_def)
      moreover have "filter (\<lambda>s. ls s = l) [0..<Suc k] ! j = filter (\<lambda>s. ls s = l) [0..<k] ! j"
        using jk by (simp add: bl_count_def nth_append)
      ultimately show ?thesis using ne by simp
    qed
  qed
qed

lemma nth_sym_props:
  assumes "j < bl_count ls n l"
  shows "nth_sym ls n l j < n" "ls (nth_sym ls n l j) = l"
    "length (filter (\<lambda>s'. ls s' = l) [0..<nth_sym ls n l j]) = j"
proof -
  let ?xs = "filter (\<lambda>s. ls s = l) [0..<n]"
  have mem: "nth_sym ls n l j \<in> set ?xs"
    unfolding nth_sym_def using assms by (intro nth_mem) (simp add: bl_count_def)
  then show "nth_sym ls n l j < n" "ls (nth_sym ls n l j) = l"
    by auto
  have "\<And>j. j < length (filter P [0..<n]) \<Longrightarrow>
          length (filter P [0..<filter P [0..<n] ! j]) = j" for P :: "nat \<Rightarrow> bool"
  proof (induction n)
    case 0 then show ?case by simp
  next
    case (Suc n)
    show ?case
    proof (cases "j < length (filter P [0..<n])")
      case True
      then show ?thesis using Suc.IH [OF True] by (simp add: nth_append)
    next
      case False
      then have "P n" "j = length (filter P [0..<n])"
        using Suc.prems by (auto split: if_splits)
      then show ?thesis by (simp add: nth_append)
    qed
  qed
  from this [of j "\<lambda>s. ls s = l"] assms
  show "length (filter (\<lambda>s'. ls s' = l) [0..<nth_sym ls n l j]) = j"
    by (simp add: nth_sym_def bl_count_def)
qed

lemma sort_syms_result:
  assumes "\<forall>s<n. ls s \<le> M"
  shows "\<exists>off sorted. sort_syms ls n (init_offsets (count_lens ls n) M) = (off, sorted)
           \<and> off 0 = bl_count ls n 0
           \<and> (\<forall>l j. j < bl_count ls n l \<longrightarrow> sorted (offs ls n l + j) = nth_sym ls n l j)"
proof -
  obtain off sorted where p: "sort_syms ls n (init_offsets (count_lens ls n) M) = (off, sorted)"
    by (cases "sort_syms ls n (init_offsets (count_lens ls n) M)")
  have "sort_inv ls n M n (sort_syms ls n (init_offsets (count_lens ls n) M))"
    using assms by (intro sort_syms_inv) (simp_all add: count_lens_fun init_offsets_eq)
  then show ?thesis
    unfolding p by (simp add: sort_inv_def nth_sym_def offs_def)
qed

section \<open>Bit reversal and the bit-reversed counter\<close>

lemma bit_reverse_bits: "bit (reverse_bits n x) i \<longleftrightarrow> i < n \<and> bit x (n - 1 - i)"
  by (auto simp: reverse_bits_def bit_horner_sum_bit_iff rev_nth)

lemma reverse_bits_less: "reverse_bits n x < 2 ^ n"
proof -
  have "take_bit n (reverse_bits n x) = reverse_bits n x"
    by (rule bit_eqI) (auto simp: bit_take_bit_iff bit_reverse_bits)
  then show ?thesis
    by (metis take_bit_nat_less_exp)
qed

lemma reverse_bits_reverse_bits: "reverse_bits n (reverse_bits n x) = take_bit n x"
  by (rule bit_eqI) (auto simp: bit_take_bit_iff bit_reverse_bits)

lemma reverse_bits_take_bit: "n \<le> m \<Longrightarrow> reverse_bits n (take_bit m x) = reverse_bits n x"
  by (rule bit_eqI) (auto simp: bit_take_bit_iff bit_reverse_bits)

lemma take_bit_eq_reverse_iff:
  assumes "c < 2 ^ l"
  shows "take_bit l w = reverse_bits l c \<longleftrightarrow> reverse_bits l w = c"
proof
  assume "take_bit l w = reverse_bits l c"
  then have "reverse_bits l (take_bit l w) = reverse_bits l (reverse_bits l c)" by simp
  then show "reverse_bits l w = c"
    using assms by (simp add: reverse_bits_take_bit reverse_bits_reverse_bits take_bit_nat_eq_self)
next
  assume "reverse_bits l w = c"
  then have "reverse_bits l (reverse_bits l w) = reverse_bits l c" by simp
  then show "take_bit l w = reverse_bits l c"
    by (simp add: reverse_bits_reverse_bits)
qed

lemma drop_bit_reverse_bits:
  "l \<le> m \<Longrightarrow> drop_bit (m - l) (reverse_bits m w) = reverse_bits l w"
  by (rule bit_eqI) (auto simp: bit_drop_bit_eq bit_reverse_bits)

lemma reverse_bits_push_bit: "reverse_bits (l + d) (push_bit d c) = reverse_bits l c"
  by (rule bit_eqI) (auto simp: bit_push_bit_iff bit_reverse_bits)

lemma take_bit_reverse_bits:
  "t \<le> l \<Longrightarrow> take_bit t (reverse_bits l c) = reverse_bits t (drop_bit (l - t) c)"
  by (rule bit_eqI) (auto simp: bit_take_bit_iff bit_drop_bit_eq bit_reverse_bits)

lemma take_bit_split_eq:
  assumes "t \<le> l"
  shows "take_bit l (w :: nat) = (r :: nat) \<longleftrightarrow>
         r < 2 ^ l \<and> take_bit t w = take_bit t r \<and> take_bit (l - t) (drop_bit t w) = drop_bit t r"
proof
  assume "take_bit l w = r"
  then have r: "r = take_bit l w" by simp
  show "r < 2 ^ l \<and> take_bit t w = take_bit t r \<and> take_bit (l - t) (drop_bit t w) = drop_bit t r"
    unfolding r using assms
    by (auto simp: take_bit_nat_less_exp min_def drop_bit_take_bit intro!: bit_eqI simp: bit_take_bit_iff)
next
  assume a: "r < 2 ^ l \<and> take_bit t w = take_bit t r \<and> take_bit (l - t) (drop_bit t w) = drop_bit t r"
  then have tr: "take_bit l r = r" by (simp add: take_bit_nat_eq_self)
  show "take_bit l w = r"
  proof (rule bit_eqI)
    fix i
    have 1: "bit (take_bit t w) i = bit (take_bit t r) i" using a by simp
    have 2: "bit (take_bit (l - t) (drop_bit t w)) (i - t) = bit (drop_bit t r) (i - t)" using a by simp
    have 3: "bit r i \<Longrightarrow> i < l" using tr by (metis bit_take_bit_iff)
    show "bit (take_bit l w) i = bit r i"
      using 1 2 3 assms by (cases "i < t") (auto simp: bit_take_bit_iff bit_drop_bit_eq)
  qed
qed

declare find_clear_bit.simps [simp del]

lemma find_clear_bit_exp:
  "find_clear_bit r (2 ^ k) =
     (if bit r k then (if k = 0 then 0 else find_clear_bit r (2 ^ (k - 1))) else 2 ^ k)"
proof -
  have z: "find_clear_bit r 0 = 0"
    by (subst find_clear_bit.simps) simp
  have d: "drop_bit (Suc 0) ((2::nat) ^ k) = (if k = 0 then 0 else 2 ^ (k - 1))"
    by (cases k) (simp_all add: drop_bit_eq_div)
  show ?thesis
    by (subst find_clear_bit.simps) (simp add: and_exp_eq_0_iff_not_bit z d)
qed

lemma bit_even_add_one:
  assumes "even (c :: nat)"
  shows "bit (Suc c) i \<longleftrightarrow> i = 0 \<or> bit c i"
proof (cases i)
  case 0
  then show ?thesis using assms by (simp add: bit_0)
next
  case (Suc j)
  have "Suc c div 2 = c div 2" using assms by (auto elim!: evenE)
  then show ?thesis using Suc by (simp add: bit_Suc)
qed

lemma advance_step:
  assumes "1 \<le> l" "c + 1 < 2 ^ l" "take_bit l r = reverse_bits l c"
  shows "(let b = find_clear_bit r (2 ^ (l - 1)) in
            1 \<le> b \<and> b \<le> 2 ^ (l - 1) \<and> (r AND (b - 1)) OR b = reverse_bits l (c + 1))"
  using assms
proof (induction l arbitrary: c)
  case 0
  then show ?case by simp
next
  case (Suc l)
  have top: "bit r l \<longleftrightarrow> odd c"
  proof -
    have "bit (take_bit (Suc l) r) l \<longleftrightarrow> bit (reverse_bits (Suc l) c) l"
      using Suc.prems by simp
    then show ?thesis by (simp add: bit_take_bit_iff bit_reverse_bits bit_0)
  qed
  have low: "i < l \<Longrightarrow> bit r i \<longleftrightarrow> bit c (l - i)" for i
  proof -
    assume i: "i < l"
    have "bit (take_bit (Suc l) r) i \<longleftrightarrow> bit (reverse_bits (Suc l) c) i"
      using Suc.prems by simp
    then show ?thesis using i by (simp add: bit_take_bit_iff bit_reverse_bits)
  qed
  show ?case
  proof (cases "even c")
    case True
    then have b: "find_clear_bit r (2 ^ (Suc l - 1)) = 2 ^ l"
      using top by (simp add: find_clear_bit_exp)
    have "(r AND (2 ^ l - 1)) OR 2 ^ l = reverse_bits (Suc l) (c + 1)"
    proof (rule bit_eqI)
      fix i
      have m: "r AND (2 ^ l - 1) = take_bit l r"
        by (simp add: take_bit_eq_mask mask_eq_exp_minus_1)
      show "bit ((r AND (2 ^ l - 1)) OR 2 ^ l) i = bit (reverse_bits (Suc l) (c + 1)) i"
        unfolding m using True low [of i]
        by (auto simp: bit_or_iff bit_take_bit_iff bit_exp_iff bit_reverse_bits bit_even_add_one less_Suc_eq)
    qed
    then show ?thesis
      using b by (simp add: Let_def)
  next
    case False
    then have l0: "l \<noteq> 0"
      using Suc.prems by (cases l) auto
    have b: "find_clear_bit r (2 ^ (Suc l - 1)) = find_clear_bit r (2 ^ (l - 1))"
      using False top l0 by (simp add: find_clear_bit_exp)
    let ?c' = "c div 2"
    have c: "c = 2 * ?c' + 1" using False by (auto elim!: oddE)
    have c'lt: "?c' + 1 < 2 ^ l"
      using Suc.prems(2) c by (cases "?c' + 1 < 2 ^ l") auto
    have tb: "take_bit l r = reverse_bits l ?c'"
    proof -
      have "take_bit l (take_bit (Suc l) r) = take_bit l (reverse_bits (Suc l) c)"
        using Suc.prems by simp
      then show ?thesis
        by (simp add: take_bit_reverse_bits drop_bit_eq_div min_def)
    qed
    have IH: "(let b = find_clear_bit r (2 ^ (l - 1)) in
            1 \<le> b \<and> b \<le> 2 ^ (l - 1) \<and> (r AND (b - 1)) OR b = reverse_bits l (?c' + 1))"
      using l0 c'lt tb by (intro Suc.IH) auto
    have "c + 1 = push_bit 1 (?c' + 1)"
      using c by (simp add: push_bit_eq_mult)
    then have "reverse_bits (Suc l) (c + 1) = reverse_bits (l + 1) (push_bit 1 (?c' + 1))"
      by simp
    also have "\<dots> = reverse_bits l (?c' + 1)"
      by (rule reverse_bits_push_bit)
    finally have e: "reverse_bits (Suc l) (c + 1) = reverse_bits l (?c' + 1)" .
    have le: "(2::nat) ^ (l - 1) \<le> 2 ^ l" by simp
    show ?thesis
      using IH le unfolding b e Let_def by (auto intro: order_trans)
  qed
qed

lemma advance_codeword_reverse:
  assumes "1 \<le> l" "l \<le> 32" "c + 1 < 2 ^ l"
  shows "advance_codeword (reverse_bits l c) l = reverse_bits l (c + 1)"
proof -
  define b where "b = find_clear_bit (reverse_bits l c) (2 ^ (l - 1))"
  have "take_bit l (reverse_bits l c) = reverse_bits l c"
    by (simp add: take_bit_nat_eq_self reverse_bits_less)
  from advance_step [OF assms(1,3) this]
  have b: "1 \<le> b" "b \<le> 2 ^ (l - 1)" "(reverse_bits l c AND (b - 1)) OR b = reverse_bits l (c + 1)"
    by (simp_all add: Let_def b_def)
  have "(2::nat) ^ (l - 1) \<le> 2 ^ 31"
    using assms by (intro power_increasing) auto
  then have "b \<le> 2147483648" using b(2) by simp
  then have "(b + 4294967295) mod 4294967296 = b - 1"
    using b(1) by (simp add: mod_if)
  then show ?thesis
    using b(3) by (simp add: advance_codeword_def Let_def b_def)
qed

section \<open>The code space\<close>

lemma next_code_Suc: "next_code ls n (Suc l) = 2 * used_upto ls n l"
  by (simp add: used_upto_def)

declare next_code.simps(2) [simp del]

lemma used_upto_0 [simp]: "used_upto ls n 0 = 0"
  by (simp add: used_upto_def)

lemma check_codespace_from:
  assumes "l0 \<le> M"
  shows "check_codespace (bl_count ls n) (2 ^ l0 - int (used_upto ls n l0)) [Suc l0..<Suc M] =
           (if \<forall>l. l0 < l \<and> l \<le> M \<longrightarrow> used_upto ls n l \<le> 2 ^ l
            then Some (2 ^ M - int (used_upto ls n M)) else None)"
  using assms
proof (induction "M - l0" arbitrary: l0)
  case 0
  then show ?case by simp
next
  case (Suc d)
  then have lt: "l0 < M" by simp
  have list: "[Suc l0..<Suc M] = Suc l0 # [Suc (Suc l0)..<Suc M]"
    using lt by (simp add: upt_conv_Cons)
  have r: "2 * (2 ^ l0 - int (used_upto ls n l0)) - int (bl_count ls n (Suc l0))
             = 2 ^ Suc l0 - int (used_upto ls n (Suc l0))"
    by (simp add: used_upto_def [of ls n "Suc l0"] next_code_Suc)
  have IH: "check_codespace (bl_count ls n) (2 ^ Suc l0 - int (used_upto ls n (Suc l0))) [Suc (Suc l0)..<Suc M] =
           (if \<forall>l. Suc l0 < l \<and> l \<le> M \<longrightarrow> used_upto ls n l \<le> 2 ^ l
            then Some (2 ^ M - int (used_upto ls n M)) else None)"
    using Suc lt by (intro Suc.hyps) auto
  show ?case
  proof (cases "used_upto ls n (Suc l0) \<le> 2 ^ Suc l0")
    case True
    have eq: "(\<forall>l. l0 < l \<and> l \<le> M \<longrightarrow> used_upto ls n l \<le> 2 ^ l)
            \<longleftrightarrow> (\<forall>l. Suc l0 < l \<and> l \<le> M \<longrightarrow> used_upto ls n l \<le> 2 ^ l)"
      using True by (metis Suc_lessI less_Suc_eq not_less_eq)
    have "int (used_upto ls n (Suc l0)) \<le> int (2 ^ Suc l0)"
      using True by (simp only: of_nat_le_iff)
    then have nn: "\<not> 2 ^ Suc l0 - int (used_upto ls n (Suc l0)) < 0"
      by simp
    show ?thesis
      unfolding list check_codespace.simps r Let_def eq using nn IH by simp
  next
    case False
    have "int (2 ^ Suc l0) < int (used_upto ls n (Suc l0))"
      using False by (simp only: of_nat_less_iff)
    then have neg: "2 ^ Suc l0 - int (used_upto ls n (Suc l0)) < 0"
      by simp
    have "\<not> (\<forall>l. l0 < l \<and> l \<le> M \<longrightarrow> used_upto ls n l \<le> 2 ^ l)"
      using False lt by (meson Suc_leI lessI)
    then show ?thesis
      unfolding list check_codespace.simps r Let_def using neg by simp
  qed
qed

lemma check_codespace_eq:
  "check_codespace (count_lens ls n) 1 [1..<M + 1] =
     (if fits ls n M then Some (2 ^ M - int (used_upto ls n M)) else None)"
  using check_codespace_from [of 0 M ls n]
  by (simp add: count_lens_fun fits_def Suc_le_eq)

lemma Wv_Suc: "l < M \<Longrightarrow> Wv ls n M (Suc l) = Ev ls n M l"
proof -
  assume "l < M"
  then have "(2::nat) ^ (M - l) = 2 * 2 ^ (M - Suc l)"
    by (metis Suc_diff_Suc power_Suc)
  then show ?thesis by (simp add: Wv_def Ev_def next_code_Suc)
qed

lemma Ev_eq: "1 \<le> l \<Longrightarrow> Ev ls n M l = Wv ls n M l + bl_count ls n l * 2 ^ (M - l)"
  by (simp add: Ev_def Wv_def used_upto_def algebra_simps)

lemma Wv_le_Ev: "Wv ls n M l \<le> Ev ls n M l"
  by (simp add: Ev_def Wv_def used_upto_def)

lemma Ev_le_Wv: "l < l' \<Longrightarrow> l' \<le> M \<Longrightarrow> Ev ls n M l \<le> Wv ls n M l'"
proof (induction l' rule: nat_induct)
  case 0
  then show ?case by simp
next
  case (Suc l')
  show ?case
  proof (cases "l = l'")
    case True
    then show ?thesis using Suc.prems by (simp add: Wv_Suc)
  next
    case False
    then have "Ev ls n M l \<le> Wv ls n M l'" using Suc by simp
    also have "\<dots> \<le> Ev ls n M l'" by (rule Wv_le_Ev)
    also have "\<dots> = Wv ls n M (Suc l')" using Suc.prems by (simp add: Wv_Suc)
    finally show ?thesis .
  qed
qed

lemma Ev_mono: "l \<le> l' \<Longrightarrow> l' \<le> M \<Longrightarrow> Ev ls n M l \<le> Ev ls n M l'"
  by (cases "l = l'") (auto intro: order_trans [OF Ev_le_Wv Wv_le_Ev])

lemma Ev_bound: "fits ls n M \<Longrightarrow> 1 \<le> l \<Longrightarrow> l \<le> M \<Longrightarrow> Ev ls n M l \<le> 2 ^ M"
proof -
  assume a: "fits ls n M" "1 \<le> l" "l \<le> M"
  then have "used_upto ls n l * 2 ^ (M - l) \<le> 2 ^ l * 2 ^ (M - l)"
    by (intro mult_right_mono) (auto simp: fits_def)
  also have "\<dots> = 2 ^ M" using a by (simp add: power_add [symmetric])
  finally show ?thesis by (simp add: Ev_def)
qed

lemma item_interval:
  assumes "item ls n M l j"
  shows "Wv ls n M l \<le> Vv ls n M l j" "Vv ls n M l j + 2 ^ (M - l) \<le> Ev ls n M l"
proof -
  show "Wv ls n M l \<le> Vv ls n M l j" by (simp add: Wv_def Vv_def)
  have "(next_code ls n l + j + 1) * 2 ^ (M - l) \<le> (next_code ls n l + bl_count ls n l) * 2 ^ (M - l)"
    using assms by (intro mult_right_mono) (auto simp: item_def)
  then show "Vv ls n M l j + 2 ^ (M - l) \<le> Ev ls n M l"
    using assms by (simp add: Vv_def Ev_def used_upto_def item_def algebra_simps)
qed

lemma item_code_less:
  assumes "fits ls n M" "item ls n M l j"
  shows "next_code ls n l + j < 2 ^ l"
proof -
  have "next_code ls n l + j < used_upto ls n l"
    using assms(2) by (auto simp: used_upto_def item_def)
  also have "\<dots> \<le> 2 ^ l" using assms by (auto simp: fits_def item_def)
  finally show ?thesis .
qed

lemma item_below_top:
  assumes "fits ls n M" "item ls n M l j"
  shows "Vv ls n M l j + 2 ^ (M - l) \<le> 2 ^ M"
  using item_interval(2) [OF assms(2)] Ev_bound [OF assms(1), of l] assms(2)
  by (auto simp: item_def)

lemma matches_interval:
  assumes "l \<le> M"
  shows "matches ls n w l j \<longleftrightarrow>
           Vv ls n M l j \<le> reverse_bits M w \<and> reverse_bits M w < Vv ls n M l j + 2 ^ (M - l)"
proof -
  have "reverse_bits l w = reverse_bits M w div 2 ^ (M - l)"
    using drop_bit_reverse_bits [OF assms, of w] by (simp add: drop_bit_eq_div)
  moreover have "(x div k = c) \<longleftrightarrow> (c * k \<le> x \<and> x < c * k + k)" if "0 < k" for x k c :: nat
  proof
    assume "x div k = c"
    then show "c * k \<le> x \<and> x < c * k + k"
      using that by (metis add.commute dividend_less_times_div mult.commute times_div_less_eq_dividend)
  next
    assume "c * k \<le> x \<and> x < c * k + k"
    then show "x div k = c"
      by (intro div_nat_eqI) (simp_all add: mult.commute)
  qed
  ultimately show ?thesis
    by (simp add: matches_def Vv_def)
qed

section \<open>Filling table entries\<close>

declare fill_entries.simps [simp del]

lemma fill_entries_eq:
  "fill_entries t i e sh x q = (if i \<le> q \<and> q < e \<and> (q - i) mod 2 ^ sh = 0 then x else t q)"
proof (induction t i e sh x rule: fill_entries.induct)
  case (1 t i e sh x)
  show ?case
  proof (cases "i < e")
    case False
    then show ?thesis by (subst fill_entries.simps) auto
  next
    case True
    have step: "fill_entries t i e sh x q = fill_entries (t(i := x)) (i + 2 ^ sh) e sh x q"
      using True by (subst fill_entries.simps) simp
    have pos: "(0::nat) < 2 ^ sh" by simp
    consider "q < i" | "q = i" | "i < q" "q < i + 2 ^ sh" | "i + 2 ^ sh \<le> q" by linarith
    then show ?thesis
    proof cases
      case 1
      then show ?thesis unfolding step "1.IH" [OF True] by auto
    next
      case 2
      then show ?thesis unfolding step "1.IH" [OF True] using True by auto
    next
      case 3
      then have "(q - i) mod 2 ^ sh = q - i" by simp
      then show ?thesis unfolding step "1.IH" [OF True] using 3 by auto
    next
      case 4
      then have "(q - i) mod 2 ^ sh = (q - (i + 2 ^ sh)) mod 2 ^ sh"
        by (metis add_diff_cancel_left' diff_diff_left le_add_diff_inverse2 le_mod_geq mod_add_self2 diff_le_mono le_add1 add.commute)
      then show ?thesis unfolding step "1.IH" [OF True] using 4 by auto
    qed
  qed
qed

lemma fill_entries_slots:
  assumes "r < 2 ^ sh"
  shows "fill_entries t (s + r) (s + 2 ^ b) sh x q =
           (if s \<le> q \<and> q < s + 2 ^ b \<and> take_bit sh (q - s) = r then x else t q)"
proof -
  have "(s + r \<le> q \<and> (q - (s + r)) mod 2 ^ sh = 0) \<longleftrightarrow> (s \<le> q \<and> (q - s) mod 2 ^ sh = r)"
  proof
    assume a: "s + r \<le> q \<and> (q - (s + r)) mod 2 ^ sh = 0"
    then obtain k where k: "q - (s + r) = 2 ^ sh * k" by (auto simp: mod_eq_0_iff_dvd)
    then have "q - s = r + 2 ^ sh * k" using a by linarith
    then show "s \<le> q \<and> (q - s) mod 2 ^ sh = r" using a assms by simp
  next
    assume a: "s \<le> q \<and> (q - s) mod 2 ^ sh = r"
    then have le: "r \<le> q - s" by (metis mod_less_eq_dividend)
    have "(q - s - r) mod 2 ^ sh = 0"
      using a by (metis mod_eq_0_iff_dvd dvd_minus_mod)
    moreover have "s + r \<le> q" using le a by linarith
    ultimately show "s + r \<le> q \<and> (q - (s + r)) mod 2 ^ sh = 0" by (simp add: diff_diff_left)
  qed
  then show ?thesis
    unfolding fill_entries_eq take_bit_eq_mod by auto
qed

lemma item_disjoint:
  assumes "item ls n M l j" "item ls n M l' j'" "matches ls n w l j" "matches ls n w l' j'"
  shows "l = l' \<and> j = j'"
proof -
  let ?X = "reverse_bits M w"
  have lM: "l \<le> M" "l' \<le> M" using assms by (auto simp: item_def)
  have i1: "Vv ls n M l j \<le> ?X" "?X < Vv ls n M l j + 2 ^ (M - l)"
    using assms(3) matches_interval [OF lM(1)] by auto
  have i2: "Vv ls n M l' j' \<le> ?X" "?X < Vv ls n M l' j' + 2 ^ (M - l')"
    using assms(4) matches_interval [OF lM(2)] by auto
  have "l = l'"
  proof (rule ccontr)
    assume "l \<noteq> l'"
    then consider "l < l'" | "l' < l" by linarith
    then show False
    proof cases
      case 1
      have "Vv ls n M l j + 2 ^ (M - l) \<le> Ev ls n M l" by (rule item_interval [OF assms(1)])
      also have "\<dots> \<le> Wv ls n M l'" using 1 lM by (intro Ev_le_Wv)
      also have "\<dots> \<le> Vv ls n M l' j'" by (rule item_interval [OF assms(2)])
      finally show False using i1 i2 by linarith
    next
      case 2
      have "Vv ls n M l' j' + 2 ^ (M - l') \<le> Ev ls n M l'" by (rule item_interval [OF assms(2)])
      also have "\<dots> \<le> Wv ls n M l" using 2 lM by (intro Ev_le_Wv)
      also have "\<dots> \<le> Vv ls n M l j" by (rule item_interval [OF assms(1)])
      finally show False using i1 i2 by linarith
    qed
  qed
  then show ?thesis using assms(3,4) by (simp add: matches_def)
qed

lemma matches_take_bit:
  assumes "fits ls n M" "item ls n M l j"
  shows "take_bit l w = reverse_bits l (next_code ls n l + j) \<longleftrightarrow> matches ls n w l j"
  unfolding matches_def
  by (rule take_bit_eq_reverse_iff) (rule item_code_less [OF assms])

lemma matches_ge:
  assumes "item ls n M l j" "matches ls n w l j"
  shows "Vv ls n M l j \<le> reverse_bits M w" "reverse_bits M w < Vv ls n M l j + 2 ^ (M - l)"
  using assms matches_interval [of l M ls n w j] by (auto simp: item_def)

lemma main_step_ok:
  assumes ok: "entries_ok ls n M tb res T (Vv ls n M l j) 0 tb cp"
    and it: "item ls n M l j" and fit: "fits ls n M" and l: "l \<le> tb"
    and T': "T' = fill_entries T (0 + reverse_bits l (next_code ls n l + j)) (0 + 2 ^ tb) l
                    (entry_of res ls n l j l)"
  shows "entries_ok ls n M tb res T' (Vv ls n M l j + 2 ^ (M - l)) 0 tb cp"
  unfolding entries_ok_def
proof (intro allI impI, elim conjE)
  fix w l' j'
  assume it': "item ls n M l' j'" and m': "matches ls n w l' j'"
    and lt: "reverse_bits M w < Vv ls n M l j + 2 ^ (M - l)"
  let ?r = "reverse_bits l (next_code ls n l + j)"
  have T'q: "T' q = (if q < 2 ^ tb \<and> take_bit l q = ?r then entry_of res ls n l j l else T q)" for q
    unfolding T' by (subst fill_entries_slots) (simp_all add: reverse_bits_less)
  have kw: "take_bit l (take_bit tb w) = ?r \<longleftrightarrow> matches ls n w l j"
    using matches_take_bit [OF fit it, of w] l by (simp add: min_def)
  have lM: "l \<le> M" using it by (simp add: item_def)
  show "slot_ok ls n tb res T' 0 tb cp w l' j'"
  proof (cases "reverse_bits M w < Vv ls n M l j")
    case True
    then have s: "slot_ok ls n tb res T 0 tb cp w l' j'"
      using ok it' m' by (simp add: entries_ok_def)
    have nm: "\<not> matches ls n w l j"
      using matches_ge(1) [OF it] True by (meson not_less)
    have same: "T' (take_bit tb w) = T (take_bit tb w)"
      using nm kw by (simp add: T'q)
    have "l' \<le> tb"
    proof (rule ccontr)
      assume "\<not> l' \<le> tb"
      then obtain s0 b :: nat where "2 ^ tb \<le> s0" "s0 + 2 ^ b \<le> 0 \<or> s0 = 0"
        using s by (auto simp: slot_ok_def)
      then show False by auto
    qed
    then show ?thesis using s same by (simp add: slot_ok_def)
  next
    case False
    then have "matches ls n w l j"
      using lt matches_interval [OF lM, of ls n w j] by simp
    then have eq: "l' = l" "j' = j" and mt: "matches ls n w l j"
      using item_disjoint [OF it' it m'] by auto
    have "T' (take_bit tb w) = entry_of res ls n l j l"
      using mt kw by (simp add: T'q take_bit_nat_less_exp)
    then show ?thesis using eq l by (simp add: slot_ok_def)
  qed
qed

lemma open_subtable_ok:
  assumes ok: "entries_ok ls n M tb res T v cs cb cp"
    and al: "v = B * 2 ^ (M - tb)" and B: "B < 2 ^ tb" and tbM: "tb \<le> M"
    and T': "T' = T(reverse_bits tb B := pointer_entry (cs + 2 ^ cb) cb')"
  shows "entries_ok ls n M tb res T' v (cs + 2 ^ cb) cb' (reverse_bits tb B)"
  unfolding entries_ok_def
proof (intro allI impI, elim conjE)
  fix w l' j'
  assume it': "item ls n M l' j'" and m': "matches ls n w l' j'" and lt: "reverse_bits M w < v"
  have s: "slot_ok ls n tb res T cs cb cp w l' j'"
    using ok it' m' lt by (simp add: entries_ok_def)
  have ne: "take_bit tb w \<noteq> reverse_bits tb B"
  proof
    assume "take_bit tb w = reverse_bits tb B"
    then have "reverse_bits tb w = B"
      using take_bit_eq_reverse_iff [OF B] by simp
    then have "reverse_bits M w div 2 ^ (M - tb) = B"
      using drop_bit_reverse_bits [OF tbM, of w] by (simp add: drop_bit_eq_div)
    then have "B * 2 ^ (M - tb) \<le> reverse_bits M w"
      by (metis div_times_less_eq_dividend)
    then show False using lt al by simp
  qed
  show "slot_ok ls n tb res T' (cs + 2 ^ cb) cb' (reverse_bits tb B) w l' j'"
  proof (cases "l' \<le> tb")
    case True
    then show ?thesis using s ne by (simp add: slot_ok_def T')
  next
    case False
    then obtain s0 b where sb: "T (take_bit tb w) = pointer_entry s0 b" "l' \<le> tb + b" "2 ^ tb \<le> s0"
      "T (s0 + take_bit b (drop_bit tb w)) = entry_of res ls n l' j' (l' - tb)"
      "s0 + 2 ^ b \<le> cs \<or> (s0 = cs \<and> b = cb \<and> take_bit tb w = cp)"
      using s by (auto simp: slot_ok_def)
    have "reverse_bits tb B < 2 ^ tb" by (rule reverse_bits_less)
    then have ne2: "s0 + take_bit b (drop_bit tb w) \<noteq> reverse_bits tb B"
      using sb(3) by linarith
    have reg: "s0 + 2 ^ b \<le> cs + 2 ^ cb"
      using sb(5) by auto
    have "T' (take_bit tb w) = pointer_entry s0 b \<and> l' \<le> tb + b \<and> 2 ^ tb \<le> s0 \<and>
             T' (s0 + take_bit b (drop_bit tb w)) = entry_of res ls n l' j' (l' - tb) \<and>
             (s0 + 2 ^ b \<le> cs + 2 ^ cb \<or>
              (s0 = cs + 2 ^ cb \<and> b = cb' \<and> take_bit tb w = reverse_bits tb B))"
      using sb ne ne2 reg by (simp add: T')
    then have "\<exists>s0 b. T' (take_bit tb w) = pointer_entry s0 b \<and> l' \<le> tb + b \<and> 2 ^ tb \<le> s0 \<and>
             T' (s0 + take_bit b (drop_bit tb w)) = entry_of res ls n l' j' (l' - tb) \<and>
             (s0 + 2 ^ b \<le> cs + 2 ^ cb \<or>
              (s0 = cs + 2 ^ cb \<and> b = cb' \<and> take_bit tb w = reverse_bits tb B))"
      by blast
    then show ?thesis
      unfolding slot_ok_def using False by simp
  qed
qed

lemma sub_step_ok:
  assumes ok: "entries_ok ls n M tb res T (Vv ls n M l j) cs cb cp"
    and it: "item ls n M l j" and fit: "fits ls n M" and l: "tb < l" "l \<le> tb + cb"
    and cp: "cp = take_bit tb (reverse_bits l (next_code ls n l + j))"
    and ptr: "T cp = pointer_entry cs cb" and cs: "2 ^ tb \<le> cs"
    and T': "T' = fill_entries T (cs + drop_bit tb (reverse_bits l (next_code ls n l + j)))
                    (cs + 2 ^ cb) (l - tb) (entry_of res ls n l j (l - tb))"
  shows "entries_ok ls n M tb res T' (Vv ls n M l j + 2 ^ (M - l)) cs cb cp"
    and "T' cp = pointer_entry cs cb"
proof -
  let ?r = "reverse_bits l (next_code ls n l + j)"
  let ?e = "entry_of res ls n l j (l - tb)"
  have rl: "?r < 2 ^ l" by (rule reverse_bits_less)
  have dr: "drop_bit tb ?r < 2 ^ (l - tb)"
  proof -
    have "?r < 2 ^ tb * 2 ^ (l - tb)" using rl l by (simp add: power_add [symmetric])
    then show ?thesis by (simp add: drop_bit_eq_div less_mult_imp_div_less mult.commute)
  qed
  have T'q: "T' q = (if cs \<le> q \<and> q < cs + 2 ^ cb \<and> take_bit (l - tb) (q - cs) = drop_bit tb ?r
                     then ?e else T q)" for q
    unfolding T' by (subst fill_entries_slots [OF dr]) simp
  have cplt: "cp < 2 ^ tb" unfolding cp by (rule take_bit_nat_less_exp)
  show "T' cp = pointer_entry cs cb"
    using cplt cs ptr by (simp add: T'q)
  have lM: "l \<le> M" using it by (simp add: item_def)
  have split: "matches ls n w l j \<longleftrightarrow>
      take_bit tb w = cp \<and> take_bit (l - tb) (drop_bit tb w) = drop_bit tb ?r" for w
    using matches_take_bit [OF fit it, of w] take_bit_split_eq [of tb l w ?r] l rl cp by auto
  have low: "take_bit tb w < cs" for w
    using cs take_bit_nat_less_exp [of tb w] by linarith
  show "entries_ok ls n M tb res T' (Vv ls n M l j + 2 ^ (M - l)) cs cb cp"
    unfolding entries_ok_def
  proof (intro allI impI, elim conjE)
    fix w l' j'
    assume it': "item ls n M l' j'" and m': "matches ls n w l' j'"
      and lt: "reverse_bits M w < Vv ls n M l j + 2 ^ (M - l)"
    have "l - tb \<le> cb" using l by linarith
    then have tk: "take_bit (l - tb) (take_bit cb (drop_bit tb w)) = take_bit (l - tb) (drop_bit tb w)"
      by (simp add: min_def)
    show "slot_ok ls n tb res T' cs cb cp w l' j'"
    proof (cases "reverse_bits M w < Vv ls n M l j")
      case True
      then have s: "slot_ok ls n tb res T cs cb cp w l' j'"
        using ok it' m' by (simp add: entries_ok_def)
      have nm: "\<not> matches ls n w l j"
        using matches_ge(1) [OF it] True by (meson not_less)
      have same: "T' (take_bit tb w) = T (take_bit tb w)"
        using low [of w] by (simp add: T'q)
      show ?thesis
      proof (cases "l' \<le> tb")
        case True
        then show ?thesis using s same by (simp add: slot_ok_def)
      next
        case False
        then obtain s0 b where sb: "T (take_bit tb w) = pointer_entry s0 b" "l' \<le> tb + b" "2 ^ tb \<le> s0"
          "T (s0 + take_bit b (drop_bit tb w)) = entry_of res ls n l' j' (l' - tb)"
          "s0 + 2 ^ b \<le> cs \<or> (s0 = cs \<and> b = cb \<and> take_bit tb w = cp)"
          using s by (auto simp: slot_ok_def)
        have "T' (s0 + take_bit b (drop_bit tb w)) = T (s0 + take_bit b (drop_bit tb w))"
        proof (cases "s0 + 2 ^ b \<le> cs")
          case True
          have "take_bit b (drop_bit tb w) < 2 ^ b" by (rule take_bit_nat_less_exp)
          then have "s0 + take_bit b (drop_bit tb w) < cs" using True by linarith
          then show ?thesis by (simp add: T'q)
        next
          case False
          then have c: "s0 = cs" "b = cb" "take_bit tb w = cp" using sb(5) by auto
          have "take_bit (l - tb) (drop_bit tb w) \<noteq> drop_bit tb ?r"
            using nm split [of w] c by simp
          then show ?thesis using c tk by (simp add: T'q)
        qed
        then have "T' (take_bit tb w) = pointer_entry s0 b \<and> l' \<le> tb + b \<and> 2 ^ tb \<le> s0 \<and>
             T' (s0 + take_bit b (drop_bit tb w)) = entry_of res ls n l' j' (l' - tb) \<and>
             (s0 + 2 ^ b \<le> cs \<or> (s0 = cs \<and> b = cb \<and> take_bit tb w = cp))"
          using sb same by simp
        then have "\<exists>s0 b. T' (take_bit tb w) = pointer_entry s0 b \<and> l' \<le> tb + b \<and> 2 ^ tb \<le> s0 \<and>
             T' (s0 + take_bit b (drop_bit tb w)) = entry_of res ls n l' j' (l' - tb) \<and>
             (s0 + 2 ^ b \<le> cs \<or> (s0 = cs \<and> b = cb \<and> take_bit tb w = cp))"
          by blast
        then show ?thesis
          unfolding slot_ok_def using False by simp
      qed
    next
      case False
      then have "matches ls n w l j"
        using lt matches_interval [OF lM, of ls n w j] by simp
      then have eq: "l' = l" "j' = j" and mt: "matches ls n w l j"
        using item_disjoint [OF it' it m'] by auto
      have sp: "take_bit tb w = cp" "take_bit (l - tb) (drop_bit tb w) = drop_bit tb ?r"
        using mt split [of w] by auto
      have "take_bit cb (drop_bit tb w) < 2 ^ cb" by (rule take_bit_nat_less_exp)
      then have "T' (cs + take_bit cb (drop_bit tb w)) = ?e"
        using sp tk by (simp add: T'q)
      moreover have "T' (take_bit tb w) = pointer_entry cs cb"
        using sp \<open>T' cp = pointer_entry cs cb\<close> by simp
      ultimately have "T' (take_bit tb w) = pointer_entry cs cb \<and> l \<le> tb + cb \<and> 2 ^ tb \<le> cs \<and>
             T' (cs + take_bit cb (drop_bit tb w)) = ?e \<and>
             (cs + 2 ^ cb \<le> cs \<or> (cs = cs \<and> cb = cb \<and> take_bit tb w = cp))"
        using l cs sp by simp
      then have "\<exists>s0 b. T' (take_bit tb w) = pointer_entry s0 b \<and> l \<le> tb + b \<and> 2 ^ tb \<le> s0 \<and>
             T' (s0 + take_bit b (drop_bit tb w)) = ?e \<and>
             (s0 + 2 ^ b \<le> cs \<or> (s0 = cs \<and> b = cb \<and> take_bit tb w = cp))"
        by blast
      then show ?thesis
        unfolding slot_ok_def eq using l by simp
    qed
  qed
qed

section \<open>The loops of the table builder\<close>

declare subtable_bits.simps [simp del] next_codeword_len.simps [simp del]

lemma next_codeword_len_ok:
  assumes "l \<le> l'" "l' \<le> M" "c l' \<noteq> 0" "\<forall>x. l \<le> x \<and> x < l' \<longrightarrow> c x = 0"
  shows "next_codeword_len M c l = Inr l'"
  using assms
proof (induction "l' - l" arbitrary: l)
  case 0
  then have "l = l'" by simp
  then show ?case using 0 by (subst next_codeword_len.simps) simp
next
  case (Suc d)
  then have "l < l'" by simp
  then have "c l = 0" "l \<le> M" using Suc.prems by auto
  moreover have "next_codeword_len M c (l + 1) = Inr l'"
    using Suc \<open>l < l'\<close> by (intro Suc.hyps) auto
  ultimately show ?case by (subst next_codeword_len.simps) simp
qed

text \<open>The loop that sizes a subtable.\<close>

lemma subtable_bits_ok:
  fixes Ep :: "nat \<Rightarrow> nat" and Ee :: "nat \<Rightarrow> nat"
  assumes y: "tb + n0 \<le> M"
    and chain: "\<forall>y. tb + n0 \<le> y \<and> y \<le> M \<longrightarrow> Ee y = Ep y + c y * 2 ^ (M - y)"
    and nxt: "\<forall>y. tb + n0 \<le> y \<and> y < M \<longrightarrow> Ep (Suc y) = Ee y"
    and tpE: "tp \<le> Ee M"
    and inv: "rem * 2 ^ (M - (tb + n0)) = int tp - int (Ep (tb + n0))"
  shows "\<exists>nb. subtable_bits M c tb n0 rem = Inr nb \<and> n0 \<le> nb \<and> tb + nb \<le> M \<and> tp \<le> Ee (tb + nb)"
  using y chain nxt inv
proof (induction "M - (tb + n0)" arbitrary: n0 rem)
  case 0
  then have yM: "tb + n0 = M" by simp
  have "rem = int tp - int (Ep M)" using 0 yM by simp
  moreover have "Ee M = Ep M + c M" using "0.prems"(2) yM by simp
  ultimately have "rem - int (c M) \<le> 0" using tpE by simp
  then show ?case
    using yM tpE by (subst subtable_bits.simps) (auto simp: Let_def)
next
  case (Suc d)
  let ?y = "tb + n0"
  have yM: "?y < M" using Suc by simp
  have e: "Ee ?y = Ep ?y + c ?y * 2 ^ (M - ?y)" using Suc.prems by simp
  let ?r = "rem - int (c ?y)"
  have r: "?r * 2 ^ (M - ?y) = int tp - int (Ee ?y)"
    using Suc.prems(4) e by (simp add: algebra_simps)
  show ?case
  proof (cases "?r \<le> 0")
    case True
    then have "?r * 2 ^ (M - ?y) \<le> 0" by (simp add: mult_le_0_iff)
    then have "tp \<le> Ee ?y" using r by simp
    then show ?thesis
      using True yM by (subst subtable_bits.simps) (auto simp: Let_def)
  next
    case False
    have p: "(2::int) ^ (M - ?y) = 2 * 2 ^ (M - (tb + (n0 + 1)))"
      using yM by (metis Suc_diff_Suc add_Suc_right Suc_eq_plus1 power_Suc)
    have inv': "(2 * ?r) * 2 ^ (M - (tb + (n0 + 1))) = int tp - int (Ep (tb + (n0 + 1)))"
    proof -
      have "(2 * ?r) * 2 ^ (M - (tb + (n0 + 1))) = ?r * 2 ^ (M - ?y)"
        by (simp only: p)
      moreover have "Ep (tb + (n0 + 1)) = Ee ?y" using Suc.prems(3) yM by simp
      ultimately show ?thesis using r by simp
    qed
    have "\<exists>nb. subtable_bits M c tb (n0 + 1) (2 * ?r) = Inr nb \<and> n0 + 1 \<le> nb \<and> tb + nb \<le> M \<and> tp \<le> Ee (tb + nb)"
      using Suc.hyps(2) yM Suc.prems(2,3) inv'
      by (intro Suc.hyps(1)) auto
    then obtain nb where nb: "subtable_bits M c tb (n0 + 1) (2 * ?r) = Inr nb" "n0 + 1 \<le> nb"
      "tb + nb \<le> M" "tp \<le> Ee (tb + nb)" by blast
    have "subtable_bits M c tb n0 rem = Inr nb"
      using False yM nb(1) by (subst subtable_bits.simps) (simp add: Let_def)
    with nb show ?thesis by auto
  qed
qed

lemma Wv_zero_counts:
  assumes "l < l'" "l' \<le> M" "\<forall>x. l < x \<and> x < l' \<longrightarrow> bl_count ls n x = 0"
  shows "Wv ls n M l' = Ev ls n M l"
  using assms
proof (induction l' rule: nat_induct)
  case 0
  then show ?case by simp
next
  case (Suc l')
  show ?case
  proof (cases "l = l'")
    case True
    then show ?thesis using Suc.prems by (simp add: Wv_Suc)
  next
    case False
    then have lt: "l < l'" using Suc.prems by simp
    have z: "bl_count ls n l' = 0" using Suc.prems lt by simp
    have "Wv ls n M (Suc l') = Ev ls n M l'" using Suc.prems by (simp add: Wv_Suc)
    also have "\<dots> = Wv ls n M l'" using z lt by (simp add: Ev_eq)
    also have "\<dots> = Ev ls n M l" using Suc lt by simp
    finally show ?thesis .
  qed
qed

lemma next_code_zero_counts:
  assumes "l < l'" "\<forall>x. l < x \<and> x < l' \<longrightarrow> bl_count ls n x = 0"
  shows "next_code ls n l' = push_bit (l' - l) (used_upto ls n l)"
  using assms
proof (induction l' rule: nat_induct)
  case 0
  then show ?case by simp
next
  case (Suc l')
  show ?case
  proof (cases "l = l'")
    case True
    then show ?thesis by (simp add: next_code_Suc push_bit_eq_mult)
  next
    case False
    then have lt: "l < l'" using Suc.prems by simp
    have z: "bl_count ls n l' = 0" using Suc.prems lt by simp
    have "next_code ls n (Suc l') = 2 * used_upto ls n l'" by (rule next_code_Suc)
    also have "\<dots> = 2 * next_code ls n l'" using z by (simp add: used_upto_def)
    also have "\<dots> = 2 * push_bit (l' - l) (used_upto ls n l)" using Suc lt by simp
    also have "\<dots> = push_bit (Suc l' - l) (used_upto ls n l)"
      using lt by (simp add: push_bit_eq_mult Suc_diff_le)
    finally show ?thesis .
  qed
qed

lemma offs_zero_counts:
  assumes "l \<le> l'" "\<forall>x. l \<le> x \<and> x < l' \<longrightarrow> bl_count ls n x = 0"
  shows "offs ls n l' = offs ls n l"
  using assms
proof (induction l' rule: nat_induct)
  case 0
  then show ?case by simp
next
  case (Suc l')
  show ?case
  proof (cases "l = Suc l'")
    case True
    then show ?thesis by simp
  next
    case False
    then have "l \<le> l'" using Suc.prems by simp
    then show ?thesis using Suc by (simp add: offs_Suc)
  qed
qed

lemma block_of_item:
  assumes "tb \<le> l" "l \<le> M"
  shows "drop_bit (l - tb) (c::nat) = (c * 2 ^ (M - l)) div 2 ^ (M - tb)"
proof -
  have "(2::nat) ^ (M - tb) = 2 ^ (l - tb) * 2 ^ (M - l)"
    using assms by (simp add: power_add [symmetric])
  then have "(c * 2 ^ (M - l)) div 2 ^ (M - tb) = (c * 2 ^ (M - l)) div (2 ^ (l - tb) * 2 ^ (M - l))"
    by simp
  also have "\<dots> = c div 2 ^ (l - tb)" by (rule div_mult_mult2) simp
  finally show ?thesis by (simp add: drop_bit_eq_div)
qed

lemma reverse_bits_inj:
  assumes "reverse_bits t a = reverse_bits t b" "a < 2 ^ t" "b < 2 ^ t"
  shows "a = b"
proof -
  have "reverse_bits t (reverse_bits t a) = reverse_bits t (reverse_bits t b)"
    using assms(1) by simp
  then show ?thesis using assms(2,3) by (simp add: reverse_bits_reverse_bits take_bit_nat_eq_self)
qed

lemma pow_split: "tb \<le> l \<Longrightarrow> l \<le> M \<Longrightarrow> (2::nat) ^ (M - tb) = 2 ^ (l - tb) * 2 ^ (M - l)"
  by (simp add: power_add [symmetric])

lemma sizing_chain:
  assumes it: "item ls n M l j"
    and cnt: "c l = bl_count ls n l - j" "\<forall>x. l < x \<longrightarrow> c x = bl_count ls n x"
  shows "\<forall>y. l \<le> y \<and> y \<le> M \<longrightarrow>
           Ev ls n M y = (if y = l then Vv ls n M l j else Ev ls n M (y - 1)) + c y * 2 ^ (M - y)"
proof (intro allI impI)
  fix y assume y: "l \<le> y \<and> y \<le> M"
  have l1: "1 \<le> l" "j < bl_count ls n l" using it by (auto simp: item_def)
  show "Ev ls n M y = (if y = l then Vv ls n M l j else Ev ls n M (y - 1)) + c y * 2 ^ (M - y)"
  proof (cases "y = l")
    case True
    have "bl_count ls n l = j + (bl_count ls n l - j)" using l1 by simp
    then have "bl_count ls n l * 2 ^ (M - l) = j * 2 ^ (M - l) + (bl_count ls n l - j) * 2 ^ (M - l)"
      by (metis add_mult_distrib)
    moreover have "Ev ls n M l = next_code ls n l * 2 ^ (M - l) + bl_count ls n l * 2 ^ (M - l)"
      using l1 by (simp add: Ev_eq Wv_def)
    moreover have "Vv ls n M l j = next_code ls n l * 2 ^ (M - l) + j * 2 ^ (M - l)"
      by (simp add: Vv_def algebra_simps)
    ultimately show ?thesis using True cnt(1) by simp
  next
    case False
    then obtain y' where y': "y = Suc y'" "l \<le> y'" using y by (cases y) auto
    have "Wv ls n M y = Ev ls n M y'" using y y' by (simp add: Wv_Suc)
    moreover have "c y = bl_count ls n y" using cnt(2) y' by simp
    ultimately show ?thesis using False y' by (simp add: Ev_eq)
  qed
qed

lemma new_subtable_bits:
  assumes par: "tb \<le> M" and fit: "fits ls n M" and cmp: "Ev ls n M M = 2 ^ M"
    and it: "item ls n M l j" and l: "tb < l"
    and cnt: "c l = bl_count ls n l - j" "\<forall>x. l < x \<longrightarrow> c x = bl_count ls n x"
    and v: "Vv ls n M l j = B * 2 ^ (M - tb)"
  shows "\<exists>nb. subtable_bits M c tb (l - tb) (2 ^ (l - tb)) = Inr nb \<and> l \<le> tb + nb \<and> tb + nb \<le> M \<and>
           (B + 1) * 2 ^ (M - tb) \<le> Ev ls n M (tb + nb)"
proof -
  have lM: "l \<le> M" using it by (simp add: item_def)
  define Ep where "Ep y = (if y = l then Vv ls n M l j else Ev ls n M (y - 1))" for y
  have B: "B < 2 ^ tb"
  proof -
    have "B * 2 ^ (M - tb) < 2 ^ M" using item_below_top [OF fit it] v
      by (metis add_lessD1 less_add_same_cancel1 less_le_trans zero_less_numeral zero_less_power)
    also have "\<dots> = 2 ^ tb * 2 ^ (M - tb)" using par by (simp add: power_add [symmetric])
    finally show ?thesis by simp
  qed
  have tp: "(B + 1) * 2 ^ (M - tb) \<le> Ev ls n M M"
  proof -
    have "(B + 1) * 2 ^ (M - tb) \<le> 2 ^ tb * 2 ^ (M - tb)"
      using B by (intro mult_right_mono) auto
    also have "\<dots> = 2 ^ M" using par by (simp add: power_add [symmetric])
    finally show ?thesis using cmp by simp
  qed
  have y0: "tb + (l - tb) \<le> M" using l lM by simp
  have chain: "\<forall>y. tb + (l - tb) \<le> y \<and> y \<le> M \<longrightarrow> Ev ls n M y = Ep y + c y * 2 ^ (M - y)"
    using sizing_chain [OF it cnt] l by (simp add: Ep_def)
  have nxt: "\<forall>y. tb + (l - tb) \<le> y \<and> y < M \<longrightarrow> Ep (Suc y) = Ev ls n M y"
    using l by (auto simp: Ep_def)
  have inv: "(2 ^ (l - tb)) * 2 ^ (M - (tb + (l - tb))) =
               int ((B + 1) * 2 ^ (M - tb)) - int (Ep (tb + (l - tb)))"
  proof -
    have "(2::int) ^ (l - tb) * 2 ^ (M - l) = 2 ^ (M - tb)"
      using l lM by (simp add: power_add [symmetric])
    moreover have "Ep l = B * 2 ^ (M - tb)" using v by (simp add: Ep_def)
    ultimately show ?thesis using l by (simp add: algebra_simps)
  qed
  obtain nb where "subtable_bits M c tb (l - tb) (2 ^ (l - tb)) = Inr nb" "l - tb \<le> nb"
    "tb + nb \<le> M" "(B + 1) * 2 ^ (M - tb) \<le> Ev ls n M (tb + nb)"
    using subtable_bits_ok [where Ee = "Ev ls n M" and Ep = Ep, OF y0 chain nxt tp inv] by blast
  then show ?thesis using l by (intro exI [of _ nb]) auto
qed

lemma and_mask_nat: "(r::nat) AND (2 ^ tb - 1) = take_bit tb r"
  by (simp add: take_bit_eq_mask mask_eq_exp_minus_1)

lemma and_mask_nat_Suc: "(r::nat) AND (2 ^ tb - Suc 0) = take_bit tb r"
  using and_mask_nat [of r tb] by simp

lemma item_prefix:
  assumes "tb \<le> l" "l \<le> M"
  shows "take_bit tb (reverse_bits l (next_code ls n l + j)) =
         reverse_bits tb (Vv ls n M l j div 2 ^ (M - tb))"
  using assms by (simp add: take_bit_reverse_bits block_of_item [of tb l M] Vv_def)

lemma put_codeword_sub:
  assumes par: "tb \<le> M" and fit: "fits ls n M" and it: "item ls n M l j" and l: "tb < l"
    and cl: "codeword_len st = l"
    and cw: "codeword_reversed st = reverse_bits l (next_code ls n l + j)"
    and ok: "entries_ok ls n M tb res (decode_table st) (Vv ls n M l j) (cur_table_start st)
               (cur_table_bits st) (cur_codeword_prefix st)"
    and sub: "sub_state ls n M tb B st"
    and lo: "B * 2 ^ (M - tb) \<le> Vv ls n M l j" and hi: "Vv ls n M l j < (B + 1) * 2 ^ (M - tb)"
  shows "state_inv ls n M tb res (Vv ls n M l j + 2 ^ (M - l))
           (put_codeword res (nth_sym ls n l j) st)"
proof -
  let ?C = "next_code ls n l + j"
  let ?r = "reverse_bits l ?C"
  let ?v = "Vv ls n M l j"
  let ?P = "(2::nat) ^ (M - tb)"
  let ?cs = "cur_table_start st" and ?cb = "cur_table_bits st" and ?cp = "cur_codeword_prefix st"
  let ?st2 = "put_codeword res (nth_sym ls n l j) st"
  have lM: "l \<le> M" using it by (simp add: item_def)
  have s: "B < 2 ^ tb" "num_dropped_bits st = tb" "?cp = reverse_bits tb B" "2 ^ tb \<le> ?cs"
    "tb + ?cb \<le> M" "?cs + 2 ^ ?cb \<le> 2 ^ tb + (B + 1) * ?P" "(B + 1) * ?P \<le> Ev ls n M (tb + ?cb)"
    "decode_table st (reverse_bits tb B) = pointer_entry ?cs ?cb"
    using sub by (simp_all add: sub_state_def)
  have blk: "?v div ?P = B"
    using lo hi by (intro div_nat_eqI) (simp_all add: algebra_simps)
  have cp: "?cp = take_bit tb ?r"
    using item_prefix [of tb l M ls n j] l lM blk s(3) by simp
  have lcb: "l \<le> tb + ?cb"
  proof (rule ccontr)
    assume "\<not> l \<le> tb + ?cb"
    then have "Ev ls n M (tb + ?cb) \<le> Wv ls n M l" using lM by (intro Ev_le_Wv) auto
    also have "\<dots> \<le> ?v" by (rule item_interval [OF it])
    finally show False using hi s(7) by simp
  qed
  have ptr: "decode_table st ?cp = pointer_entry ?cs ?cb" using s by simp
  have T2: "decode_table ?st2 = fill_entries (decode_table st) (?cs + drop_bit tb ?r) (?cs + 2 ^ ?cb)
              (l - tb) (entry_of res ls n l j (l - tb))"
    using s(2) cl cw by (simp add: put_codeword_def Let_def entry_of_def)
  have ok2: "entries_ok ls n M tb res (decode_table ?st2) (?v + 2 ^ (M - l)) ?cs ?cb ?cp"
    and ptr2: "decode_table ?st2 ?cp = pointer_entry ?cs ?cb"
    using sub_step_ok [OF ok it fit l lcb cp ptr s(4) T2] by simp_all
  have f: "cur_table_start ?st2 = ?cs" "cur_table_bits ?st2 = ?cb" "cur_codeword_prefix ?st2 = ?cp"
    "num_dropped_bits ?st2 = tb" "codeword_len ?st2 = l"
    using s(2) cl by (simp_all add: put_codeword_def Let_def)
  have sub2: "sub_state ls n M tb B ?st2"
    unfolding sub_state_def f using s l ptr2 by simp
  have lo2: "B * ?P < ?v + 2 ^ (M - l)"
  proof -
    have "(0::nat) < 2 ^ (M - l)" by simp
    then show ?thesis using lo by linarith
  qed
  have hi2: "?v + 2 ^ (M - l) \<le> (B + 1) * ?P"
  proof -
    have P: "?P = 2 ^ (l - tb) * 2 ^ (M - l)" using l lM by (intro pow_split) auto
    have "?C * 2 ^ (M - l) < ((B + 1) * 2 ^ (l - tb)) * 2 ^ (M - l)"
      using hi by (simp add: Vv_def P algebra_simps)
    then have "?C < (B + 1) * 2 ^ (l - tb)" by simp
    then have "?C + 1 \<le> (B + 1) * 2 ^ (l - tb)" by simp
    then have "(?C + 1) * 2 ^ (M - l) \<le> ((B + 1) * 2 ^ (l - tb)) * 2 ^ (M - l)"
      by (rule mult_right_mono) simp
    then show ?thesis by (simp add: Vv_def P algebra_simps)
  qed
  show ?thesis
    unfolding state_inv_def f using ok2 sub2 lo2 hi2 by blast
qed

lemma open_new_subtable:
  assumes par: "tb \<le> M" and fit: "fits ls n M" and cmp: "Ev ls n M M = 2 ^ M"
    and it: "item ls n M l j" and l: "tb < l"
    and cl: "codeword_len st = l"
    and cnt: "len_counts st l = bl_count ls n l - j" "\<forall>x. l < x \<longrightarrow> len_counts st x = bl_count ls n x"
    and cw: "codeword_reversed st = reverse_bits l (next_code ls n l + j)"
    and ok: "entries_ok ls n M tb res (decode_table st) (Vv ls n M l j) (cur_table_start st)
               (cur_table_bits st) (cur_codeword_prefix st)"
    and v: "Vv ls n M l j = B * 2 ^ (M - tb)"
    and ne: "cur_codeword_prefix st \<noteq> reverse_bits tb B"
    and s1: "2 ^ tb \<le> cur_table_start st + 2 ^ cur_table_bits st"
    and s2: "cur_table_start st + 2 ^ cur_table_bits st \<le> 2 ^ tb + B * 2 ^ (M - tb)"
  shows "\<exists>st1. open_subtable tb M st = Inr st1 \<and> sub_state ls n M tb B st1 \<and>
           entries_ok ls n M tb res (decode_table st1) (Vv ls n M l j) (cur_table_start st1)
             (cur_table_bits st1) (cur_codeword_prefix st1) \<and>
           codeword_len st1 = l \<and> len_counts st1 = len_counts st \<and>
           codeword_reversed st1 = codeword_reversed st"
proof -
  let ?C = "next_code ls n l + j"
  let ?r = "reverse_bits l ?C"
  let ?v = "Vv ls n M l j"
  let ?P = "(2::nat) ^ (M - tb)"
  let ?cs = "cur_table_start st + 2 ^ cur_table_bits st"
  have lM: "l \<le> M" using it by (simp add: item_def)
  have B: "B < 2 ^ tb"
  proof -
    have "B * ?P < 2 ^ M" using item_below_top [OF fit it] v
      by (metis add_lessD1 less_add_same_cancel1 less_le_trans zero_less_numeral zero_less_power)
    also have "\<dots> = 2 ^ tb * ?P" using par by (simp add: power_add [symmetric])
    finally show ?thesis by simp
  qed
  have pre: "take_bit tb ?r = reverse_bits tb B"
    using item_prefix [of tb l M ls n j] l lM v by simp
  obtain nb where nb: "subtable_bits M (len_counts st) tb (l - tb) (2 ^ (l - tb)) = Inr nb"
    "l \<le> tb + nb" "tb + nb \<le> M" "(B + 1) * ?P \<le> Ev ls n M (tb + nb)"
    using new_subtable_bits [OF par fit cmp it l cnt v] by blast
  define st1 where "st1 = st\<lparr>cur_codeword_prefix := reverse_bits tb B,
                                cur_table_start := ?cs,
                                cur_table_bits := nb,
                                decode_table := (decode_table st)
                                  (reverse_bits tb B := pointer_entry ?cs nb),
                                num_dropped_bits := tb\<rparr>"
  have o: "open_subtable tb M st = Inr st1"
    using l cl cw pre ne nb(1)
    by (simp add: open_subtable_def and_mask_nat and_mask_nat_Suc Let_def st1_def pointer_entry_def)
  have ok1: "entries_ok ls n M tb res (decode_table st1) ?v ?cs nb (reverse_bits tb B)"
    using open_subtable_ok [OF ok v B par refl, of nb] by (simp add: st1_def)
  have nbP: "(2::nat) ^ nb \<le> ?P" using nb(3) by (intro power_increasing) auto
  have e: "?cs + 2 ^ nb \<le> 2 ^ tb + (B + 1) * ?P"
  proof -
    have "(B + 1) * ?P = B * ?P + ?P" by simp
    then show ?thesis using s2 nbP by linarith
  qed
  have "sub_state ls n M tb B st1"
    unfolding sub_state_def using B l cl s1 e nb(3,4)
    by (simp add: st1_def)
  then show ?thesis using o ok1 cl by (intro exI [of _ st1]) (simp add: st1_def)
qed

lemma put_codeword_fields:
  "codeword_len (put_codeword res s st) = codeword_len st"
  "len_counts (put_codeword res s st) = len_counts st"
  "codeword_reversed (put_codeword res s st) = advance_codeword (codeword_reversed st) (codeword_len st)"
  by (simp_all add: put_codeword_def Let_def)

lemma process_item:
  assumes par: "1 \<le> tb" "tb \<le> M" "M \<le> 15"
    and fit: "fits ls n M"
    and cmp: "Ev ls n M M = 2 ^ M \<or> (\<forall>x. tb < x \<longrightarrow> bl_count ls n x = 0)"
    and it: "item ls n M l j"
    and cl: "codeword_len st = l"
    and cnt: "len_counts st l = bl_count ls n l - j" "\<forall>x. l < x \<longrightarrow> len_counts st x = bl_count ls n x"
    and cw: "codeword_reversed st = reverse_bits l (next_code ls n l + j)"
    and inv: "state_inv ls n M tb res (Vv ls n M l j) st"
  shows "\<exists>st1. open_subtable tb M st = Inr st1 \<and>
           state_inv ls n M tb res (Vv ls n M l j + 2 ^ (M - l))
             (put_codeword res (nth_sym ls n l j) st1) \<and>
           codeword_len st1 = l \<and> len_counts st1 = len_counts st \<and>
           codeword_reversed st1 = codeword_reversed st"
proof -
  let ?C = "next_code ls n l + j"
  let ?r = "reverse_bits l ?C"
  let ?v = "Vv ls n M l j"
  let ?P = "(2::nat) ^ (M - tb)"
  let ?T = "decode_table st"
  have l1: "1 \<le> l" "l \<le> M" "j < bl_count ls n l" using it by (auto simp: item_def)
  have ok: "entries_ok ls n M tb res ?T ?v (cur_table_start st) (cur_table_bits st)
              (cur_codeword_prefix st)"
    using inv by (simp add: state_inv_def)
  have top: "?v + 2 ^ (M - l) \<le> 2 ^ M" by (rule item_below_top [OF fit it])
  show ?thesis
  proof (cases "l \<le> tb")
    case True
    have mm: "main_mode tb st" "?P dvd ?v"
      using inv True cl by (auto simp: state_inv_def sub_state_def)
    have o: "open_subtable tb M st = Inr st" using True cl by (simp add: open_subtable_def)
    let ?st2 = "put_codeword res (nth_sym ls n l j) st"
    have T2: "decode_table ?st2 = fill_entries ?T (0 + ?r) (0 + 2 ^ tb) l (entry_of res ls n l j l)"
      using mm cl cw by (simp add: put_codeword_def main_mode_def entry_of_def Let_def)
    have ok0: "entries_ok ls n M tb res ?T ?v 0 tb (cur_codeword_prefix st)"
      using ok mm by (simp add: main_mode_def)
    have ok2: "entries_ok ls n M tb res (decode_table ?st2) (?v + 2 ^ (M - l)) 0 tb
                 (cur_codeword_prefix st)"
      by (rule main_step_ok [OF ok0 it fit True T2])
    have mm2: "main_mode tb ?st2" using mm by (simp add: main_mode_def put_codeword_def Let_def)
    have "?P dvd 2 ^ (M - l)" using True by (intro le_imp_power_dvd) simp
    then have dv: "?P dvd ?v + 2 ^ (M - l)" using mm(2) by (rule dvd_add [rotated])
    have "state_inv ls n M tb res (?v + 2 ^ (M - l)) ?st2"
      unfolding state_inv_def using ok2 mm mm2 dv by (simp add: main_mode_def)
    then show ?thesis using o cl by simp
  next
    case False
    then have l: "tb < l" by simp
    have comp: "Ev ls n M M = 2 ^ M" using cmp l1 l by auto
    have PM: "(2::nat) ^ M = 2 ^ tb * ?P" using par by (simp add: power_add [symmetric])
    have tb32: "(2::nat) ^ tb < 4294967295"
    proof -
      have "(2::nat) ^ tb \<le> 2 ^ 15" using par by (intro power_increasing) auto
      then show ?thesis by simp
    qed
    consider (new) B where "?v = B * ?P" "cur_codeword_prefix st \<noteq> reverse_bits tb B"
        "2 ^ tb \<le> cur_table_start st + 2 ^ cur_table_bits st"
        "cur_table_start st + 2 ^ cur_table_bits st \<le> 2 ^ tb + B * ?P"
      | (same) B where "sub_state ls n M tb B st" "B * ?P \<le> ?v" "?v < (B + 1) * ?P"
    proof -
      from inv consider (m) "main_mode tb st" "?P dvd ?v"
        | (s) B0 where "sub_state ls n M tb B0 st" "B0 * ?P < ?v" "?v \<le> (B0 + 1) * ?P"
        by (auto simp: state_inv_def)
      then show ?thesis
      proof cases
        case m
        then obtain B where B: "?v = B * ?P" by (auto simp: dvd_def mult.commute)
        have "reverse_bits tb B < 2 ^ tb" by (rule reverse_bits_less)
        then have "cur_codeword_prefix st \<noteq> reverse_bits tb B"
          using m(1) tb32 by (simp add: main_mode_def)
        then show ?thesis using new [of B] B m(1) by (simp add: main_mode_def)
      next
        case s
        show ?thesis
        proof (cases "?v = (B0 + 1) * ?P")
          case True
          have "(B0 + 1) * ?P < 2 ^ tb * ?P" using top True PM
            by (metis add_lessD1 less_add_same_cancel1 less_le_trans zero_less_numeral zero_less_power)
          then have B1: "B0 + 1 < 2 ^ tb" by (rule mult_right_less_imp_less) simp
          have B0: "B0 < 2 ^ tb" using B1 by simp
          have "reverse_bits tb B0 \<noteq> reverse_bits tb (B0 + 1)"
            using reverse_bits_inj [OF _ B0 B1] by auto
          then have ne: "cur_codeword_prefix st \<noteq> reverse_bits tb (B0 + 1)"
            using s(1) by (simp add: sub_state_def)
          have "2 ^ tb \<le> cur_table_start st" using s(1) by (simp add: sub_state_def)
          then have a: "2 ^ tb \<le> cur_table_start st + 2 ^ cur_table_bits st" by simp
          have b: "cur_table_start st + 2 ^ cur_table_bits st \<le> 2 ^ tb + (B0 + 1) * ?P"
            using s(1) by (simp add: sub_state_def)
          show ?thesis using new [of "B0 + 1"] True ne a b by simp
        next
          case False
          then show ?thesis using same [of B0] s by simp
        qed
      qed
    qed
    then show ?thesis
    proof cases
      case new
      obtain st1 where st1: "open_subtable tb M st = Inr st1" "sub_state ls n M tb B st1"
        "entries_ok ls n M tb res (decode_table st1) ?v (cur_table_start st1)
             (cur_table_bits st1) (cur_codeword_prefix st1)"
        "codeword_len st1 = l" "len_counts st1 = len_counts st"
        "codeword_reversed st1 = codeword_reversed st"
        using open_new_subtable [OF par(2) fit comp it l cl cnt cw ok new] by blast
      have lo: "B * ?P \<le> ?v" using new(1) by simp
      have hi: "?v < (B + 1) * ?P" using new(1) by simp
      have cw1: "codeword_reversed st1 = ?r" using st1(6) cw by simp
      have "state_inv ls n M tb res (?v + 2 ^ (M - l)) (put_codeword res (nth_sym ls n l j) st1)"
        by (rule put_codeword_sub [OF par(2) fit it l st1(4) cw1 st1(3) st1(2) lo hi])
      then show ?thesis using st1 by blast
    next
      case same
      have o: "open_subtable tb M st = Inr st"
      proof -
        have "?v div ?P = B" using same(2,3) by (intro div_nat_eqI) (simp_all add: algebra_simps)
        then have "take_bit tb ?r = reverse_bits tb B"
          using item_prefix [of tb l M ls n j] l l1 by simp
        then show ?thesis using same(1) cw
          by (simp add: open_subtable_def and_mask_nat and_mask_nat_Suc sub_state_def)
      qed
      have "state_inv ls n M tb res (?v + 2 ^ (M - l)) (put_codeword res (nth_sym ls n l j) st)"
        by (rule put_codeword_sub [OF par(2) fit it l cl cw ok same])
      then show ?thesis using o cl by simp
    qed
  qed
qed

lemma bl_count_le: "bl_count ls n l \<le> n"
  using length_filter_le [of "\<lambda>s. ls s = l" "[0..<n]"] by (simp add: bl_count_def)

lemma decrement_count: "1 \<le> x \<Longrightarrow> x < 65536 \<Longrightarrow> (x + 65535) mod 65536 = x - (1::nat)"
proof -
  assume a: "1 \<le> x" "x < 65536"
  then have "x + 65535 = (x - 1) + 1 * 65536" by simp
  then have "(x + 65535) mod 65536 = (x - 1) mod 65536" by (metis mod_mult_self1)
  then show ?thesis using a by simp
qed

lemma next_item:
  assumes par: "M \<le> 15" "n < 65536" "\<forall>s<n. ls s \<le> M"
    and fit: "fits ls n M"
    and it: "item ls n M l j"
    and more: "offs ls n l + j + 1 < n"
    and cnt: "c l = bl_count ls n l - j" "\<forall>x. l < x \<longrightarrow> c x = bl_count ls n x"
    and c': "c' = c(l := (c l + 65535) mod 65536)"
  shows "\<exists>l' j'. item ls n M l' j' \<and> next_codeword_len M c' l = Inr l' \<and>
           Vv ls n M l' j' = Vv ls n M l j + 2 ^ (M - l) \<and>
           offs ls n l' + j' = offs ls n l + j + 1 \<and>
           c' l' = bl_count ls n l' - j' \<and> (\<forall>x. l' < x \<longrightarrow> c' x = bl_count ls n x) \<and>
           advance_codeword (reverse_bits l (next_code ls n l + j)) l =
             reverse_bits l' (next_code ls n l' + j') \<and> l \<le> l'"
proof -
  let ?C = "next_code ls n l + j"
  have l1: "1 \<le> l" "l \<le> M" "j < bl_count ls n l" using it by (auto simp: item_def)
  have l32: "l \<le> 32" using l1 par by simp
  have "c l < 65536" "1 \<le> c l"
    using cnt(1) l1 bl_count_le [of ls n l] par by simp_all
  then have "(c l + 65535) mod 65536 = c l - 1" by (rule decrement_count [rotated])
  then have c'l: "c' l = bl_count ls n l - j - 1"
    using c' cnt(1) by simp
  have c'x: "c' x = bl_count ls n x" if "l < x" for x using c' cnt(2) that by simp
  show ?thesis
  proof (cases "j + 1 < bl_count ls n l")
    case True
    have it': "item ls n M l (j + 1)" using l1 True by (simp add: item_def)
    have "c' l \<noteq> 0" using c'l True by simp
    then have n: "next_codeword_len M c' l = Inr l"
      using l1 by (intro next_codeword_len_ok) auto
    have "?C + 1 < 2 ^ l" using item_code_less [OF fit it'] by simp
    then have a: "advance_codeword (reverse_bits l ?C) l = reverse_bits l (?C + 1)"
      using l1 l32 by (intro advance_codeword_reverse) auto
    have v: "Vv ls n M l (j + 1) = Vv ls n M l j + 2 ^ (M - l)"
      by (simp add: Vv_def algebra_simps)
    show ?thesis
      using it' n v a c'l c'x by (intro exI [of _ l] exI [of _ "j + 1"]) (simp add: add.assoc)
  next
    case False
    then have j: "bl_count ls n l = j + 1" using l1 by simp
    have o1: "offs ls n (Suc l) = offs ls n l + j + 1" using j by (simp add: offs_Suc)
    have ex: "\<exists>x. l < x \<and> bl_count ls n x \<noteq> 0"
    proof (rule ccontr)
      assume "\<not> ?thesis"
      then have "offs ls n (Suc M) = offs ls n (Suc l)"
        using l1 by (intro offs_zero_counts) auto
      then show False using offs_total [OF par(3)] o1 more by simp
    qed
    define l' where "l' = (LEAST x. l < x \<and> bl_count ls n x \<noteq> 0)"
    have l': "l < l'" "bl_count ls n l' \<noteq> 0"
      using LeastI_ex [OF ex] by (simp_all add: l'_def)
    have z: "bl_count ls n x = 0" if "l < x" "x < l'" for x
      using not_less_Least [of x "\<lambda>x. l < x \<and> bl_count ls n x \<noteq> 0"] that by (auto simp: l'_def)
    have l'M: "l' \<le> M"
    proof (rule ccontr)
      assume "\<not> l' \<le> M"
      then have "\<forall>x. Suc l \<le> x \<and> x < Suc M \<longrightarrow> bl_count ls n x = 0" using z by auto
      then have "offs ls n (Suc M) = offs ls n (Suc l)"
        using l1 by (intro offs_zero_counts) auto
      then show False using offs_total [OF par(3)] o1 more by simp
    qed
    have it': "item ls n M l' 0" using l' l'M l1 by (simp add: item_def)
    have c'0: "c' l = 0" using c'l j by simp
    have "\<forall>x. l \<le> x \<and> x < l' \<longrightarrow> c' x = 0"
    proof (intro allI impI)
      fix x assume x: "l \<le> x \<and> x < l'"
      show "c' x = 0"
      proof (cases "x = l")
        case True then show ?thesis using c'0 by simp
      next
        case False
        then have "l < x" using x by simp
        then show ?thesis using c'x [of x] z [of x] x by simp
      qed
    qed
    moreover have "c' l' \<noteq> 0" using c'x [OF l'(1)] l'(2) by simp
    ultimately have n: "next_codeword_len M c' l = Inr l'"
      using l' l'M by (intro next_codeword_len_ok) auto
    have u: "used_upto ls n l = ?C + 1" using l1 j by (simp add: used_upto_def)
    have "Vv ls n M l' 0 = Wv ls n M l'" by (simp add: Vv_def Wv_def)
    also have "\<dots> = Ev ls n M l" using l' l'M z by (intro Wv_zero_counts) auto
    also have "\<dots> = Vv ls n M l j + 2 ^ (M - l)" by (simp add: Ev_def u Vv_def algebra_simps)
    finally have v: "Vv ls n M l' 0 = Vv ls n M l j + 2 ^ (M - l)" .
    have "offs ls n l' = offs ls n (Suc l)" using l' z by (intro offs_zero_counts) auto
    then have o: "offs ls n l' + 0 = offs ls n l + j + 1" using o1 by simp
    have N: "next_code ls n l' = push_bit (l' - l) (?C + 1)"
      using next_code_zero_counts [of l l' ls n] l' z u by auto
    have "(?C + 1) * 2 ^ (l' - l) < 2 ^ l'"
      using item_code_less [OF fit it'] N by (simp add: push_bit_eq_mult)
    also have "\<dots> = 2 ^ l * 2 ^ (l' - l)" using l'(1) by (simp add: power_add [symmetric])
    finally have "?C + 1 < 2 ^ l" by (rule mult_right_less_imp_less) simp
    then have "advance_codeword (reverse_bits l ?C) l = reverse_bits l (?C + 1)"
      using l1 l32 by (intro advance_codeword_reverse) auto
    also have "\<dots> = reverse_bits (l + (l' - l)) (push_bit (l' - l) (?C + 1))"
      by (rule reverse_bits_push_bit [symmetric])
    also have "\<dots> = reverse_bits l' (next_code ls n l' + 0)" using N l'(1) by simp
    finally have a: "advance_codeword (reverse_bits l ?C) l = reverse_bits l' (next_code ls n l' + 0)" .
    have cc: "c' l' = bl_count ls n l' - 0" using c'x [OF l'(1)] by simp
    have cx: "\<forall>x. l' < x \<longrightarrow> c' x = bl_count ls n x" using c'x l'(1) by auto
    have ll: "l \<le> l'" using l'(1) by simp
    show ?thesis
      using it' n v o cc cx a ll by blast
  qed
qed

lemma first_item:
  assumes par: "\<forall>s<n. ls s \<le> M" and ne: "bl_count ls n 0 < n"
  shows "\<exists>l. item ls n M l 0 \<and> next_codeword_len M (bl_count ls n) 1 = Inr l \<and>
           Vv ls n M l 0 = 0 \<and> offs ls n l = bl_count ls n 0 \<and> next_code ls n l = 0"
proof -
  have o1: "offs ls n (Suc 0) = bl_count ls n 0" by (simp add: offs_def)
  have ex: "\<exists>x. 0 < x \<and> bl_count ls n x \<noteq> 0"
  proof (rule ccontr)
    assume "\<not> ?thesis"
    then have "\<forall>x. Suc 0 \<le> x \<and> x < Suc M \<longrightarrow> bl_count ls n x = 0"
      by (metis Suc_le_eq)
    then have "offs ls n (Suc M) = offs ls n (Suc 0)"
      by (intro offs_zero_counts) auto
    then show False using offs_total [OF par] o1 ne by simp
  qed
  define l where "l = (LEAST x. 0 < x \<and> bl_count ls n x \<noteq> 0)"
  have l: "0 < l" "bl_count ls n l \<noteq> 0"
    using LeastI_ex [OF ex] by (simp_all add: l_def)
  have z: "bl_count ls n x = 0" if "0 < x" "x < l" for x
    using not_less_Least [of x "\<lambda>x. 0 < x \<and> bl_count ls n x \<noteq> 0"] that by (auto simp: l_def)
  have lM: "l \<le> M"
  proof (rule ccontr)
    assume "\<not> l \<le> M"
    then have "\<forall>x. Suc 0 \<le> x \<and> x < Suc M \<longrightarrow> bl_count ls n x = 0" using z by auto
    then have "offs ls n (Suc M) = offs ls n (Suc 0)"
      by (intro offs_zero_counts) auto
    then show False using offs_total [OF par] o1 ne by simp
  qed
  have it: "item ls n M l 0" using l lM by (simp add: item_def)
  have n: "next_codeword_len M (bl_count ls n) 1 = Inr l"
    using l lM z by (intro next_codeword_len_ok) auto
  have N: "next_code ls n l = 0"
    using next_code_zero_counts [of 0 l ls n] l z by simp
  have "offs ls n l = offs ls n (Suc 0)" using l z by (intro offs_zero_counts) auto
  then show ?thesis using it n N o1 by (intro exI [of _ l]) (simp add: Vv_def)
qed

declare fill_table.simps [simp del]

lemma slot_ok_entry_ok:
  assumes s: "slot_ok ls n tb res T (cur_table_start st) (cur_table_bits st) (cur_codeword_prefix st) w l j"
    and inv: "state_inv ls n M tb res v st" and tbM: "tb \<le> M"
  shows "entry_ok ls n M tb res T w l j"
proof (cases "l \<le> tb")
  case True
  then show ?thesis using s by (simp add: slot_ok_def entry_ok_def)
next
  case False
  let ?cs = "cur_table_start st" and ?cb = "cur_table_bits st"
  obtain s0 b where sb: "T (take_bit tb w) = pointer_entry s0 b" "l \<le> tb + b" "2 ^ tb \<le> s0"
    "T (s0 + take_bit b (drop_bit tb w)) = entry_of res ls n l j (l - tb)"
    "s0 + 2 ^ b \<le> ?cs \<or> (s0 = ?cs \<and> b = ?cb)"
    using s False by (auto simp: slot_ok_def)
  have "\<not> main_mode tb st"
  proof
    assume "main_mode tb st"
    then have "?cs = 0" by (simp add: main_mode_def)
    then show False using sb(3,5) by auto
  qed
  then obtain B where B: "sub_state ls n M tb B st" using inv by (auto simp: state_inv_def)
  have "(B + 1) * 2 ^ (M - tb) \<le> 2 ^ tb * 2 ^ (M - tb)"
    using B by (intro mult_right_mono) (auto simp: sub_state_def)
  also have "\<dots> = 2 ^ M" using tbM by (simp add: power_add [symmetric])
  finally have "?cs + 2 ^ ?cb \<le> 2 ^ tb + 2 ^ M" using B by (simp add: sub_state_def)
  moreover have "s0 + 2 ^ b \<le> ?cs + 2 ^ ?cb" using sb(5) by auto
  ultimately have "s0 + 2 ^ b \<le> 2 ^ tb + 2 ^ M" by linarith
  then show ?thesis using False sb unfolding entry_ok_def by auto
qed

lemma state_inv_update:
  assumes "state_inv ls n M tb res v st" "codeword_len st \<le> l'"
  shows "state_inv ls n M tb res v (st\<lparr>len_counts := c, codeword_len := l'\<rparr>)"
  using assms by (auto simp: state_inv_def main_mode_def sub_state_def)

lemma item_order:
  assumes "item ls n M l j" "item ls n M l' j'" "offs ls n l' + j' \<le> offs ls n l + j"
  shows "Vv ls n M l' j' + 2 ^ (M - l') \<le> Vv ls n M l j + 2 ^ (M - l)"
proof -
  have i: "j < bl_count ls n l" "j' < bl_count ls n l'" "l \<le> M" "l' \<le> M"
    using assms by (auto simp: item_def)
  consider "l' = l" | "l' < l" | "l < l'" by linarith
  then show ?thesis
  proof cases
    case 1
    then have "j' \<le> j" using assms(3) by simp
    then have "(next_code ls n l + j' + 1) * 2 ^ (M - l) \<le> (next_code ls n l + j + 1) * 2 ^ (M - l)"
      by (intro mult_right_mono) auto
    then show ?thesis using 1 by (simp add: Vv_def algebra_simps)
  next
    case 2
    have "Vv ls n M l' j' + 2 ^ (M - l') \<le> Ev ls n M l'" by (rule item_interval [OF assms(2)])
    also have "\<dots> \<le> Wv ls n M l" using 2 i by (intro Ev_le_Wv)
    also have "\<dots> \<le> Vv ls n M l j" by (rule item_interval [OF assms(1)])
    finally show ?thesis by simp
  next
    case 3
    have "offs ls n l + bl_count ls n l \<le> offs ls n l'" using 3 by (rule offs_block_le)
    then show ?thesis using assms(3) i by simp
  qed
qed

lemma item_index_less:
  assumes "\<forall>s<n. ls s \<le> M" "item ls n M l j"
  shows "offs ls n l + j < n"
proof -
  have "offs ls n l + bl_count ls n l \<le> offs ls n (Suc M)"
    using assms(2) by (intro offs_block_le) (simp add: item_def)
  then show ?thesis using offs_total [OF assms(1)] assms(2) by (simp add: item_def)
qed

lemma fill_table_ok:
  assumes par: "1 \<le> tb" "tb \<le> M" "M \<le> 15" "n < 65536" "\<forall>s<n. ls s \<le> M"
    and fit: "fits ls n M"
    and cmp: "Ev ls n M M = 2 ^ M \<or> (\<forall>x. tb < x \<longrightarrow> bl_count ls n x = 0)"
    and srt_eq: "\<forall>l j. j < bl_count ls n l \<longrightarrow> srt (offs ls n l + j) = nth_sym ls n l j"
    and it: "item ls n M l j"
    and idx: "sym_idx = offs ls n l + j"
    and cl: "codeword_len st = l"
    and cnt: "len_counts st l = bl_count ls n l - j" "\<forall>x. l < x \<longrightarrow> len_counts st x = bl_count ls n x"
    and cw: "codeword_reversed st = reverse_bits l (next_code ls n l + j)"
    and inv: "state_inv ls n M tb res (Vv ls n M l j) st"
  shows "\<exists>T. fill_table tb M res n srt sym_idx st = Inr (True, T) \<and>
           (\<forall>w l j. item ls n M l j \<and> matches ls n w l j \<longrightarrow> entry_ok ls n M tb res T w l j)"
  using it idx cl cnt cw inv
proof (induction "n - sym_idx" arbitrary: sym_idx l j st)
  case 0
  then show ?case using item_index_less [OF par(5), of l j] by simp
next
  case (Suc d)
  note it = Suc.prems(1) and idx = Suc.prems(2) and cl = Suc.prems(3) and cnt = Suc.prems(4,5)
    and cw = Suc.prems(6) and inv = Suc.prems(7)
  have lt: "sym_idx < n" using item_index_less [OF par(5) it] idx by simp
  have s: "srt sym_idx = nth_sym ls n l j" using srt_eq it idx by (simp add: item_def)
  obtain st1 where st1: "open_subtable tb M st = Inr st1"
    "state_inv ls n M tb res (Vv ls n M l j + 2 ^ (M - l)) (put_codeword res (nth_sym ls n l j) st1)"
    "codeword_len st1 = l" "len_counts st1 = len_counts st" "codeword_reversed st1 = codeword_reversed st"
    using process_item [OF par(1,2,3) fit cmp it cl cnt cw inv] by blast
  define st2 where "st2 = put_codeword res (nth_sym ls n l j) st1"
  have f2: "codeword_len st2 = l" "len_counts st2 = len_counts st"
    "codeword_reversed st2 = advance_codeword (reverse_bits l (next_code ls n l + j)) l"
    using st1 cw by (simp_all add: st2_def put_codeword_fields)
  have inv2: "state_inv ls n M tb res (Vv ls n M l j + 2 ^ (M - l)) st2"
    using st1(2) by (simp add: st2_def)
  show ?case
  proof (cases "sym_idx + 1 = n")
    case True
    have r: "fill_table tb M res n srt sym_idx st = Inr (True, decode_table st2)"
      using lt st1(1) s True by (subst fill_table.simps) (simp add: Let_def st2_def)
    have "entry_ok ls n M tb res (decode_table st2) w l' j'"
      if a: "item ls n M l' j'" "matches ls n w l' j'" for w l' j'
    proof -
      have "offs ls n l' + j' < n" by (rule item_index_less [OF par(5) a(1)])
      then have "offs ls n l' + j' \<le> offs ls n l + j" using True idx by simp
      then have "Vv ls n M l' j' + 2 ^ (M - l') \<le> Vv ls n M l j + 2 ^ (M - l)"
        by (rule item_order [OF it a(1)])
      then have "reverse_bits M w < Vv ls n M l j + 2 ^ (M - l)"
        using matches_ge(2) [OF a] by simp
      then have "slot_ok ls n tb res (decode_table st2) (cur_table_start st2) (cur_table_bits st2)
                   (cur_codeword_prefix st2) w l' j'"
        using inv2 a by (simp add: state_inv_def entries_ok_def)
      then show ?thesis using inv2 par(2) by (rule slot_ok_entry_ok)
    qed
    then show ?thesis using r by blast
  next
    case False
    then have more: "offs ls n l + j + 1 < n" using lt idx by simp
    define c' where "c' = (len_counts st)(l := (len_counts st l + 65535) mod 65536)"
    obtain l' j' where n: "item ls n M l' j'" "next_codeword_len M c' l = Inr l'"
      "Vv ls n M l' j' = Vv ls n M l j + 2 ^ (M - l)"
      "offs ls n l' + j' = offs ls n l + j + 1"
      "c' l' = bl_count ls n l' - j'" "\<forall>x. l' < x \<longrightarrow> c' x = bl_count ls n x"
      "advance_codeword (reverse_bits l (next_code ls n l + j)) l =
         reverse_bits l' (next_code ls n l' + j')" "l \<le> l'"
      using next_item [OF par(3,4,5) fit it more cnt c'_def] by blast
    define st3 where "st3 = st2\<lparr>len_counts := c', codeword_len := l'\<rparr>"
    have r: "fill_table tb M res n srt sym_idx st = fill_table tb M res n srt (sym_idx + 1) st3"
      using lt st1(1) s False f2(1,2) n(2)
      by (subst fill_table.simps) (simp add: Let_def st2_def [symmetric] c'_def [symmetric] st3_def)
    have inv3: "state_inv ls n M tb res (Vv ls n M l' j') st3"
      unfolding st3_def n(3) using inv2 f2(1) n(8) by (intro state_inv_update) auto
    have "\<exists>T. fill_table tb M res n srt (sym_idx + 1) st3 = Inr (True, T) \<and>
           (\<forall>w l j. item ls n M l j \<and> matches ls n w l j \<longrightarrow> entry_ok ls n M tb res T w l j)"
    proof (rule Suc.hyps(1) [OF _ n(1)])
      show "d = n - (sym_idx + 1)" using Suc.hyps(2) by simp
      show "sym_idx + 1 = offs ls n l' + j'" using n(4) idx by simp
      show "codeword_len st3 = l'" by (simp add: st3_def)
      show "len_counts st3 l' = bl_count ls n l' - j'" using n(5) by (simp add: st3_def)
      show "\<forall>x. l' < x \<longrightarrow> len_counts st3 x = bl_count ls n x" using n(6) by (simp add: st3_def)
      show "codeword_reversed st3 = reverse_bits l' (next_code ls n l' + j')"
        using n(7) f2(3) by (simp add: st3_def)
      show "state_inv ls n M tb res (Vv ls n M l' j') st3" by (rule inv3)
    qed
    then show ?thesis using r by simp
  qed
qed

section \<open>The result of \<^verbatim>\<open>build_decode_table\<close>\<close>

lemma fold_fill_const:
  "fold (\<lambda>sym t. t(sym := e)) [0..<k] T0 = (\<lambda>i. if i < k then e else T0 i)"
  by (induction k) (auto simp: fun_eq_iff)

lemma reverse_bits_zero [simp]: "reverse_bits l 0 = 0"
  by (rule bit_eqI) (simp add: bit_reverse_bits)

lemma bl_count_above:
  assumes "\<forall>s<n. ls s \<le> M" "M < x"
  shows "bl_count ls n x = 0"
proof -
  have "filter (\<lambda>s. ls s = x) [0..<n] = []"
    using assms by (auto simp: filter_empty_conv)
  then show ?thesis by (simp add: bl_count_def)
qed

lemma used_upto_zero_counts:
  assumes "\<forall>x. 1 \<le> x \<and> x \<le> M \<longrightarrow> bl_count ls n x = 0"
  shows "used_upto ls n M = 0"
proof (cases "M = 0")
  case True then show ?thesis by simp
next
  case False
  then have "next_code ls n M = push_bit (M - 0) (used_upto ls n 0)"
    using assms by (intro next_code_zero_counts) auto
  then show ?thesis using assms False by (simp add: used_upto_def)
qed

lemma nonempty_code:
  assumes par: "\<forall>s<n. ls s \<le> M" and u: "used_upto ls n M \<noteq> 0"
  shows "bl_count ls n 0 < n"
proof -
  obtain x where x: "1 \<le> x" "x \<le> M" "bl_count ls n x \<noteq> 0"
    using used_upto_zero_counts [of M ls n] u by blast
  have "offs ls n (Suc 0) \<le> offs ls n x" using x by (intro offs_mono) simp
  moreover have "offs ls n x + bl_count ls n x \<le> offs ls n (Suc M)"
    using x by (intro offs_block_le) simp
  moreover have "offs ls n (Suc 0) = bl_count ls n 0" by (simp add: offs_def)
  ultimately show ?thesis using offs_total [OF par] x by simp
qed

lemma single_codeword_code:
  assumes par: "1 \<le> tb" "\<forall>s<n. ls s \<le> M" "1 \<le> M" and fit: "fits ls n M"
    and u: "used_upto ls n M = 2 ^ (M - 1)" and one: "bl_count ls n 1 = 1"
  shows "\<forall>x. tb < x \<longrightarrow> bl_count ls n x = 0"
proof (intro allI impI, rule ccontr)
  fix x assume x: "tb < x" "bl_count ls n x \<noteq> 0"
  have xM: "x \<le> M" using bl_count_above [OF par(2), of x] x by (cases "x \<le> M") auto
  have it: "item ls n M x 0" using x xM by (simp add: item_def)
  have "next_code ls n 1 = 0"
    using next_code_Suc [of ls n 0] by simp
  then have e1: "Ev ls n M 1 = 2 ^ (M - 1)" using one by (simp add: Ev_def used_upto_def)
  have "Ev ls n M 1 \<le> Wv ls n M x" using x par(1) xM by (intro Ev_le_Wv) auto
  also have "\<dots> \<le> Vv ls n M x 0" by (rule item_interval [OF it])
  also have "\<dots> < Vv ls n M x 0 + 2 ^ (M - x)" by simp
  also have "\<dots> \<le> Ev ls n M x" by (rule item_interval [OF it])
  also have "\<dots> \<le> Ev ls n M M" using xM by (intro Ev_mono) auto
  also have "\<dots> = 2 ^ (M - 1)" using u by (simp add: Ev_def)
  finally show False using e1 by simp
qed

lemma generate_ok:
  assumes par: "1 \<le> tb" "tb \<le> M" "M \<le> 15" "n < 65536" "\<forall>s<n. ls s \<le> M"
    and fit: "fits ls n M"
    and cmp: "Ev ls n M M = 2 ^ M \<or> (\<forall>x. tb < x \<longrightarrow> bl_count ls n x = 0)"
    and srt: "\<forall>l j. j < bl_count ls n l \<longrightarrow> srt (offs ls n l + j) = nth_sym ls n l j"
    and ne: "bl_count ls n 0 < n"
  shows "\<exists>T. bnd (next_codeword_len M (bl_count ls n) 1) (\<lambda>len.
              fill_table tb M res n srt (bl_count ls n 0)
                \<lparr>decode_table = t, len_counts = bl_count ls n, codeword_len = len,
                 codeword_reversed = 0, cur_codeword_prefix = 4294967295,
                 cur_table_start = 0, cur_table_bits = tb, num_dropped_bits = 0\<rparr>) = Inr (True, T)
           \<and> table_ok ls n M tb res T"
proof -
  obtain l where l: "item ls n M l 0" "next_codeword_len M (bl_count ls n) 1 = Inr l"
    "Vv ls n M l 0 = 0" "offs ls n l = bl_count ls n 0" "next_code ls n l = 0"
    using first_item [OF par(5) ne] by blast
  define st where "st = \<lparr>decode_table = t, len_counts = bl_count ls n, codeword_len = l,
                 codeword_reversed = 0, cur_codeword_prefix = 4294967295,
                 cur_table_start = 0, cur_table_bits = tb, num_dropped_bits = 0\<rparr>"
  have inv: "state_inv ls n M tb res (Vv ls n M l 0) st"
    unfolding l(3) by (simp add: state_inv_def entries_ok_def main_mode_def st_def)
  have "\<exists>T. fill_table tb M res n srt (bl_count ls n 0) st = Inr (True, T) \<and>
           (\<forall>w l j. item ls n M l j \<and> matches ls n w l j \<longrightarrow> entry_ok ls n M tb res T w l j)"
  proof (rule fill_table_ok [OF par fit cmp srt l(1) _ _ _ _ _ inv])
    show "bl_count ls n 0 = offs ls n l + 0" using l(4) by simp
    show "codeword_len st = l" by (simp add: st_def)
    show "len_counts st l = bl_count ls n l - 0" by (simp add: st_def)
    show "\<forall>x. l < x \<longrightarrow> len_counts st x = bl_count ls n x" by (simp add: st_def)
    show "codeword_reversed st = reverse_bits l (next_code ls n l + 0)"
      using l(5) by (simp add: st_def)
  qed
  then show ?thesis using l(2) by (simp add: st_def table_ok_def)
qed

lemma build_decode_table_unfold:
  assumes ss: "sort_syms ls n (init_offsets (count_lens ls n) M) = (off, srt)"
  shows "build_decode_table T0 ls n res tb M =
     (case check_codespace (bl_count ls n) 1 [1..<M + 1] of
        None \<Rightarrow> Inr (False, T0)
      | Some remainder \<Rightarrow>
          if remainder \<noteq> 0
          then (if remainder = 2 ^ M then Inr (True, sentinel_table T0 res tb)
                else if remainder \<noteq> 2 ^ (M - 1) \<or> bl_count ls n 1 \<noteq> 1
                then Inr (False, sentinel_table T0 res tb)
                else bnd (next_codeword_len M (bl_count ls n) 1) (\<lambda>len.
                  fill_table tb M res n srt (off 0)
                    \<lparr>decode_table = sentinel_table T0 res tb, len_counts = bl_count ls n,
                     codeword_len = len,
                     codeword_reversed = 0, cur_codeword_prefix = 4294967295,
                     cur_table_start = 0, cur_table_bits = tb, num_dropped_bits = 0\<rparr>))
          else bnd (next_codeword_len M (bl_count ls n) 1) (\<lambda>len.
                  fill_table tb M res n srt (off 0)
                    \<lparr>decode_table = T0, len_counts = bl_count ls n, codeword_len = len,
                     codeword_reversed = 0, cur_codeword_prefix = 4294967295,
                     cur_table_start = 0, cur_table_bits = tb, num_dropped_bits = 0\<rparr>))"
  using ss unfolding build_decode_table_def Let_def count_lens_fun fold_fill_const sentinel_table_def
  by (simp split: option.splits)

lemma build_decode_table_result:
  assumes par: "1 \<le> tb" "tb \<le> M" "M \<le> 15" "n < 65536" "\<forall>s<n. ls s \<le> M"
  shows "\<not> fits ls n M \<Longrightarrow> build_decode_table T0 ls n res tb M = Inr (False, T0)"
    and "fits ls n M \<Longrightarrow> used_upto ls n M = 0 \<Longrightarrow>
           build_decode_table T0 ls n res tb M = Inr (True, sentinel_table T0 res tb)"
    and "fits ls n M \<Longrightarrow> used_upto ls n M = 2 ^ M \<or> (used_upto ls n M = 2 ^ (M - 1) \<and> bl_count ls n 1 = 1) \<Longrightarrow>
           \<exists>T. build_decode_table T0 ls n res tb M = Inr (True, T) \<and> table_ok ls n M tb res T"
    and "fits ls n M \<Longrightarrow> used_upto ls n M \<noteq> 0 \<Longrightarrow> used_upto ls n M \<noteq> 2 ^ M \<Longrightarrow>
           \<not> (used_upto ls n M = 2 ^ (M - 1) \<and> bl_count ls n 1 = 1) \<Longrightarrow>
           build_decode_table T0 ls n res tb M = Inr (False, sentinel_table T0 res tb)"
proof -
  obtain off srt where ss: "sort_syms ls n (init_offsets (count_lens ls n) M) = (off, srt)"
    "off 0 = bl_count ls n 0"
    "\<forall>l j. j < bl_count ls n l \<longrightarrow> srt (offs ls n l + j) = nth_sym ls n l j"
    using sort_syms_result [OF par(5)] by blast
  note b0 = build_decode_table_unfold [OF ss(1), of T0 res tb]
  have cs: "check_codespace (bl_count ls n) 1 [1..<M + 1] =
     (if fits ls n M then Some (2 ^ M - int (used_upto ls n M)) else None)"
    using check_codespace_eq [of ls n M] by (simp add: count_lens_fun)
  note b = b0 [unfolded cs ss(2)]
  have M1: "1 \<le> M" using par by simp
  have half: "(2::int) ^ M - 2 ^ (M - 1) = 2 ^ (M - 1)"
  proof -
    have "(2::int) ^ M = 2 * 2 ^ (M - 1)" using M1 by (cases M) auto
    then show ?thesis by simp
  qed
  have ip: "(int u = 2 ^ k) = (u = 2 ^ k)" for u k :: nat
    using of_nat_eq_iff [of u "2 ^ k", where 'a = int] by simp
  have r0: "(2 ^ M - int (used_upto ls n M) = 0) = (used_upto ls n M = 2 ^ M)"
    using ip [of "used_upto ls n M" M] by linarith
  have rM: "(2 ^ M - int (used_upto ls n M) = 2 ^ M) = (used_upto ls n M = 0)" by simp
  have rh: "(2 ^ M - int (used_upto ls n M) = 2 ^ (M - 1)) = (used_upto ls n M = 2 ^ (M - 1))"
  proof
    assume "2 ^ M - int (used_upto ls n M) = 2 ^ (M - 1)"
    then have "int (used_upto ls n M) = 2 ^ (M - 1)" using half by linarith
    then show "used_upto ls n M = 2 ^ (M - 1)" by (simp only: ip)
  next
    assume "used_upto ls n M = 2 ^ (M - 1)"
    then show "2 ^ M - int (used_upto ls n M) = 2 ^ (M - 1)" using half by simp
  qed
  have rh': "(2 ^ M - int (used_upto ls n M) = 2 ^ (M - Suc 0)) = (used_upto ls n M = 2 ^ (M - Suc 0))"
    using rh by simp
  have ne2: "(2::nat) ^ (M - 1) \<noteq> 2 ^ M" using M1 by simp
  show "\<not> fits ls n M \<Longrightarrow> build_decode_table T0 ls n res tb M = Inr (False, T0)"
    by (simp add: b)
  show "fits ls n M \<Longrightarrow> used_upto ls n M = 0 \<Longrightarrow>
           build_decode_table T0 ls n res tb M = Inr (True, sentinel_table T0 res tb)"
    by (simp add: b)
  show "fits ls n M \<Longrightarrow> used_upto ls n M \<noteq> 0 \<Longrightarrow> used_upto ls n M \<noteq> 2 ^ M \<Longrightarrow>
           \<not> (used_upto ls n M = 2 ^ (M - 1) \<and> bl_count ls n 1 = 1) \<Longrightarrow>
           build_decode_table T0 ls n res tb M = Inr (False, sentinel_table T0 res tb)"
    by (simp add: b r0 rM rh rh')
  show "\<exists>T. build_decode_table T0 ls n res tb M = Inr (True, T) \<and> table_ok ls n M tb res T"
    if fit: "fits ls n M"
      and u: "used_upto ls n M = 2 ^ M \<or> (used_upto ls n M = 2 ^ (M - 1) \<and> bl_count ls n 1 = 1)"
  proof -
    have ne: "bl_count ls n 0 < n" using u by (intro nonempty_code [OF par(5)]) auto
    have cmp: "Ev ls n M M = 2 ^ M \<or> (\<forall>x. tb < x \<longrightarrow> bl_count ls n x = 0)"
      using u single_codeword_code [OF par(1,5) M1 fit] by (auto simp: Ev_def)
    note g = generate_ok [OF par fit cmp ss(3) ne, of res]
    show ?thesis
    proof (cases "used_upto ls n M = 2 ^ M")
      case True
      then show ?thesis using g [of T0] fit by (simp add: b ss(2))
    next
      case False
      then have h: "used_upto ls n M = 2 ^ (M - 1)" "bl_count ls n 1 = 1" using u by auto
      have half': "(2::int) ^ M - 2 ^ (M - Suc 0) = 2 ^ (M - Suc 0)" using half by simp
      show ?thesis using g [of "sentinel_table T0 res tb"] fit h ne2 M1
        by (simp add: b half')
    qed
  qed
qed

section \<open>The fields of a table entry\<close>

lemma nat_bit_bound: "k < 2 ^ m \<Longrightarrow> bit (k::nat) i \<Longrightarrow> i < m"
proof -
  assume a: "k < 2 ^ m" "bit k i"
  then have "bit (take_bit m k) i" by (simp add: take_bit_nat_eq_self)
  then show ?thesis by (simp add: bit_take_bit_iff)
qed

lemma result_bit_bound: "(r::u32) < 2 ^ 23 \<Longrightarrow> bit r i \<Longrightarrow> i < 23"
proof -
  assume a: "r < 2 ^ 23" "bit r i"
  have "unat r < 2 ^ 23" using a(1) by (simp add: word_less_nat_alt)
  moreover have "bit (unat r) i" using a(2) by (simp add: bit_unsigned_iff)
  ultimately show ?thesis by (rule nat_bit_bound)
qed

lemma flag_bit: "bit (2147483648::int) i \<longleftrightarrow> i = 31"
proof -
  have "bit ((2::int) ^ 31) i \<longleftrightarrow> i = 31" by (simp only: bit_exp_iff) auto
  moreover have "(2::int) ^ 31 = 2147483648" by simp
  ultimately show ?thesis by (simp only:)
qed

lemma flag_bit_dropped: "bit (8388608::int) i \<longleftrightarrow> i = 23"
proof -
  have "bit ((2::int) ^ 23) i \<longleftrightarrow> i = 23" by (simp only: bit_exp_iff) auto
  moreover have "(2::int) ^ 23 = 8388608" by simp
  ultimately show ?thesis by (simp only:)
qed

lemma and_flag: "(e::u32) AND 2147483648 = 0 \<longleftrightarrow> \<not> bit e 31"
  using and_exp_eq_0_iff_not_bit [of e 31] by simp

lemma length_mask: "(0xFF::u32) = mask 8"
  by (simp add: mask_eq_exp_minus_1)

lemma start_mask: "(0xFFFF::u32) = mask 16"
  by (simp add: mask_eq_exp_minus_1)

lemma entry_length:
  assumes "k < 256"
  shows "make_decode_table_entry r (of_nat k) AND HUFFDEC_LENGTH_MASK = of_nat k"
proof -
  have bb: "\<forall>i. bit k i \<longrightarrow> i < 8" using assms nat_bit_bound [of k 8] by simp
  show ?thesis
    unfolding make_decode_table_entry_def HUFFDEC_LENGTH_MASK_def HUFFDEC_RESULT_SHIFT_def length_mask
    apply (rule bit_word_eqI)
    apply (insert bb)
    apply (auto simp: bit_simps)
    done
qed

lemma entry_result:
  assumes "k < 256" "r < 2 ^ 23"
  shows "drop_bit HUFFDEC_RESULT_SHIFT (make_decode_table_entry r (of_nat k)) = r"
proof -
  have bb: "\<forall>i. bit k i \<longrightarrow> i < 8" using assms nat_bit_bound [of k 8] by simp
  have rr: "\<forall>i. bit r i \<longrightarrow> i < 23" using assms result_bit_bound [of r] by simp
  show ?thesis
    unfolding make_decode_table_entry_def HUFFDEC_RESULT_SHIFT_def
    apply (rule bit_word_eqI)
    apply (insert bb rr)
    apply (auto simp: bit_simps)
    done
qed

lemma entry_not_pointer:
  assumes "k < 256" "r < 2 ^ 23"
  shows "make_decode_table_entry r (of_nat k) AND HUFFDEC_SUBTABLE_POINTER = 0"
proof -
  have k: "\<not> bit k 31" using assms(1) nat_bit_bound [of k 8 31] by auto
  have r: "\<not> bit r 23" using assms(2) result_bit_bound [of r 23] by auto
  have "\<not> bit (make_decode_table_entry r (of_nat k)) 31"
    unfolding make_decode_table_entry_def HUFFDEC_RESULT_SHIFT_def
    using k r by (simp add: bit_simps)
  then show ?thesis
    unfolding HUFFDEC_SUBTABLE_POINTER_def by (simp add: and_flag)
qed

lemma pointer_is_pointer: "pointer_entry s0 b AND HUFFDEC_SUBTABLE_POINTER \<noteq> 0"
proof -
  have "bit (pointer_entry s0 b) 31"
    unfolding pointer_entry_def HUFFDEC_SUBTABLE_POINTER_def
    by (simp add: bit_simps flag_bit)
  then show ?thesis
    unfolding HUFFDEC_SUBTABLE_POINTER_def by (simp add: and_flag)
qed

lemma pointer_length:
  assumes "b < 256"
  shows "unat (pointer_entry s0 b AND HUFFDEC_LENGTH_MASK) = b"
proof -
  have bb: "\<forall>i. bit b i \<longrightarrow> i < 8" using assms nat_bit_bound [of b 8] by simp
  have "pointer_entry s0 b AND HUFFDEC_LENGTH_MASK = of_nat b"
    unfolding pointer_entry_def make_decode_table_entry_def HUFFDEC_LENGTH_MASK_def
      HUFFDEC_RESULT_SHIFT_def HUFFDEC_SUBTABLE_POINTER_def length_mask
    apply (rule bit_word_eqI)
    apply (insert bb)
    apply (auto simp: bit_simps flag_bit flag_bit_dropped)
    done
  then show ?thesis using assms by (simp add: unat_of_nat)
qed

lemma pointer_start:
  assumes "b < 256" "s0 < 2 ^ 16"
  shows "drop_bit HUFFDEC_RESULT_SHIFT (pointer_entry s0 b) AND 0xFFFF = of_nat s0"
proof -
  have bb: "\<forall>i. bit b i \<longrightarrow> i < 8" using assms nat_bit_bound [of b 8] by simp
  have ss: "\<forall>i. bit s0 i \<longrightarrow> i < 16" using assms nat_bit_bound [of s0 16] by simp
  show ?thesis
    unfolding pointer_entry_def make_decode_table_entry_def
      HUFFDEC_RESULT_SHIFT_def HUFFDEC_SUBTABLE_POINTER_def start_mask
    apply (rule bit_word_eqI)
    apply (insert bb ss)
    apply (auto simp: bit_simps flag_bit flag_bit_dropped)
    done
qed

section \<open>Decoding through the table\<close>

lemma remainder_after_eq: "remainder_after ls n l = 2 ^ l - int (used_upto ls n l)"
proof (induction l)
  case 0
  show ?case by simp
next
  case (Suc l)
  have "used_upto ls n (Suc l) = 2 * used_upto ls n l + bl_count ls n (Suc l)"
    by (simp add: used_upto_def next_code_Suc)
  then show ?case using Suc by simp
qed

lemma over_subscribed_iff: "over_subscribed ls n M \<longleftrightarrow> \<not> fits ls n M"
proof -
  have "(remainder_after ls n l < 0) = (\<not> used_upto ls n l \<le> 2 ^ l)" for l
  proof -
    have "(int (used_upto ls n l) \<le> 2 ^ l) = (used_upto ls n l \<le> 2 ^ l)"
      using of_nat_le_iff [of "used_upto ls n l" "2 ^ l", where 'a = int] by simp
    then show ?thesis by (simp add: remainder_after_eq not_le)
  qed
  then show ?thesis
    by (auto simp: over_subscribed_def fits_def list_ex_iff Suc_le_eq)
qed

lemma is_codeword_of_item:
  assumes fit: "fits ls n M" and par: "\<forall>s<n. ls s \<le> M" and c: "is_codeword_of ls n w s"
  defines "j \<equiv> length (filter (\<lambda>s'. ls s' = ls s) [0..<s])"
  shows "item ls n M (ls s) j" "matches ls n w (ls s) j" "nth_sym ls n (ls s) j = s"
proof -
  let ?l = "ls s"
  have s: "s < n" "?l \<noteq> 0"
    and bits: "\<forall>i<?l. bit w i = bit (codeword ls n s) (?l - 1 - i)"
    using c by (auto simp: is_codeword_of_def list_all_iff)
  have split: "[0..<n] = [0..<s] @ s # [Suc s..<n]"
    using s(1) by (metis le_add1 less_imp_add_positive upt_add_eq_append upt_conv_Cons
        add_0 le0 less_imp_le_nat)
  have f: "filter (\<lambda>s'. ls s' = ?l) [0..<n] =
             filter (\<lambda>s'. ls s' = ?l) [0..<s] @ s # filter (\<lambda>s'. ls s' = ?l) [Suc s..<n]"
    by (subst split) simp
  have jlt: "j < bl_count ls n ?l" unfolding bl_count_def f j_def by simp
  show it: "item ls n M ?l j" using s par jlt by (simp add: item_def Suc_le_eq)
  show "nth_sym ls n ?l j = s" unfolding nth_sym_def f j_def by (simp add: nth_append)
  have cw: "codeword ls n s = next_code ls n ?l + j" by (simp add: codeword_def j_def)
  have lt: "next_code ls n ?l + j < 2 ^ ?l" by (rule item_code_less [OF fit it])
  have "take_bit ?l w = reverse_bits ?l (next_code ls n ?l + j)"
  proof (rule bit_eqI)
    fix i
    show "bit (take_bit ?l w) i = bit (reverse_bits ?l (next_code ls n ?l + j)) i"
      using bits cw by (auto simp: bit_take_bit_iff bit_reverse_bits)
  qed
  then show "matches ls n w ?l j"
    using matches_take_bit [OF fit it, of w] by simp
qed

lemma item_used_pos:
  assumes "item ls n M l j"
  shows "0 < used_upto ls n M"
proof -
  have lM: "l \<le> M" using assms by (simp add: item_def)
  have "Vv ls n M l j + 2 ^ (M - l) \<le> Ev ls n M l" by (rule item_interval [OF assms])
  also have "\<dots> \<le> Ev ls n M M" using lM by (intro Ev_mono) auto
  finally have "2 ^ (M - l) \<le> Ev ls n M M" by simp
  moreover have "(0::nat) < 2 ^ (M - l)" by simp
  ultimately have "0 < Ev ls n M M" by linarith
  then show ?thesis by (simp add: Ev_def)
qed

lemma accepted_table:
  assumes par: "1 \<le> tb" "tb \<le> M" "M \<le> 15" "n < 65536" "\<forall>s<n. ls s \<le> M"
    and b: "build_decode_table T0 ls n res tb M = Inr (True, T)"
  shows "fits ls n M"
    and "0 < used_upto ls n M \<Longrightarrow> table_ok ls n M tb res T"
proof -
  note r = build_decode_table_result [OF par, of T0 res]
  show fit: "fits ls n M" using r(1) b by auto
  show "table_ok ls n M tb res T" if u: "0 < used_upto ls n M"
  proof (cases "used_upto ls n M = 2 ^ M \<or> (used_upto ls n M = 2 ^ (M - 1) \<and> bl_count ls n 1 = 1)")
    case True
    then show ?thesis using r(3) [OF fit] b by auto
  next
    case False
    then show ?thesis using r(4) [OF fit] u b by auto
  qed
qed

lemma table_entry_of_entry_ok:
  assumes par: "1 \<le> tb" "tb \<le> M" "M \<le> 15"
    and it: "item ls n M l j" and r: "res (nth_sym ls n l j) < 2 ^ 23"
    and e: "entry_ok ls n M tb res T w l j"
  shows "table_entry T tb w AND HUFFDEC_LENGTH_MASK =
           of_nat (if T (take_bit tb w) AND HUFFDEC_SUBTABLE_POINTER \<noteq> 0 then l - tb else l) \<and>
         drop_bit HUFFDEC_RESULT_SHIFT (table_entry T tb w) = res (nth_sym ls n l j) \<and>
         ((T (take_bit tb w) AND HUFFDEC_SUBTABLE_POINTER \<noteq> 0) \<longleftrightarrow> tb < l)"
proof (cases "l \<le> tb")
  case True
  have l: "l < 256" using it par by (auto simp: item_def)
  have T: "T (take_bit tb w) = make_decode_table_entry (res (nth_sym ls n l j)) (of_nat l)"
    using e True by (simp add: entry_ok_def entry_of_def)
  have np: "T (take_bit tb w) AND HUFFDEC_SUBTABLE_POINTER = 0"
    unfolding T by (rule entry_not_pointer [OF l r])
  have te: "table_entry T tb w = make_decode_table_entry (res (nth_sym ls n l j)) (of_nat l)"
    using np T by (simp add: table_entry_def Let_def)
  show ?thesis
    using np True by (simp add: te entry_length [OF l] entry_result [OF l r])
next
  case False
  obtain s0 b where sb: "T (take_bit tb w) = pointer_entry s0 b" "l \<le> tb + b" "2 ^ tb \<le> s0"
    "s0 + 2 ^ b \<le> 2 ^ tb + 2 ^ M"
    "T (s0 + take_bit b (drop_bit tb w)) = entry_of res ls n l j (l - tb)"
    using e False by (auto simp: entry_ok_def)
  have p1: "(2::nat) ^ tb \<le> 2 ^ 15" using par by (intro power_increasing) auto
  have p2: "(2::nat) ^ M \<le> 2 ^ 15" using par by (intro power_increasing) auto
  have bound: "s0 + 2 ^ b \<le> 65536" using sb(4) p1 p2 by simp
  have "(2::nat) ^ 1 \<le> 2 ^ tb" using par(1) by (intro power_increasing) auto
  then have s2: "2 \<le> s0" using sb(3) by simp
  have "(2::nat) ^ b < 65536" using bound s2 by linarith
  then have "(2::nat) ^ b < 2 ^ 16" by simp
  then have b16: "b < 16" by (simp only: power_strict_increasing_iff) 
  have b: "b < 256" using b16 by simp
  have pb: "(0::nat) < 2 ^ b" by simp
  have "s0 < 65536" using bound pb by linarith
  then have s0: "s0 < 2 ^ 16" by simp
  let ?y = "take_bit b (drop_bit tb w)"
  have y: "s0 + ?y < 65536"
  proof -
    have "?y < 2 ^ b" by (rule take_bit_nat_less_exp)
    then show ?thesis using bound by linarith
  qed
  have ip: "T (take_bit tb w) AND HUFFDEC_SUBTABLE_POINTER \<noteq> 0"
    unfolding sb(1) by (rule pointer_is_pointer)
  have idx: "unat ((drop_bit HUFFDEC_RESULT_SHIFT (pointer_entry s0 b) AND 0xFFFF) + of_nat ?y) = s0 + ?y"
  proof -
    have "(drop_bit HUFFDEC_RESULT_SHIFT (pointer_entry s0 b) AND 0xFFFF) + of_nat ?y
            = (of_nat (s0 + ?y) :: u32)"
      by (simp add: pointer_start [OF b s0])
    moreover have "unat (of_nat (s0 + ?y) :: u32) = s0 + ?y"
    proof -
      have "unat (of_nat (s0 + ?y) :: u32) = (s0 + ?y) mod 2 ^ LENGTH(32)"
        by (simp only: unat_of_nat)
      also have "\<dots> = s0 + ?y" using y by simp
      finally show ?thesis .
    qed
    ultimately show ?thesis by simp
  qed
  have l: "l - tb < 256" using it par by (auto simp: item_def)
  have te: "table_entry T tb w = make_decode_table_entry (res (nth_sym ls n l j)) (of_nat (l - tb))"
    using ip sb(5) unfolding table_entry_def Let_def sb(1) idx pointer_length [OF b]
    by (simp add: entry_of_def)
  show ?thesis
    using ip False by (simp add: te entry_length [OF l] entry_result [OF l r] del: of_nat_diff)
qed

text \<open>
  The entry that \<open>decode_symbol\<close> returns is the one that \<open>table_entry\<close> gives for the
  content of the bit buffer.
\<close>

lemma bits_mask: "(2::u32) ^ k - 1 = mask k"
  by (simp add: mask_eq_exp_minus_1)

lemma bits_value:
  "(ucast ((b::bitbuf_t) AND ucast ((2::u32) ^ k - 1)) :: u32) = of_nat (take_bit k (unat b))"
  unfolding bits_mask
  apply (rule bit_word_eqI)
  apply (auto simp: bit_simps bit_unsigned_iff)
  done

lemma bits_index:
  assumes "k \<le> 32"
  shows "unat (of_nat (take_bit k x) :: u32) = take_bit k x"
proof -
  have "take_bit k x < 2 ^ k" by (rule take_bit_nat_less_exp)
  also have "(2::nat) ^ k \<le> 2 ^ 32" using assms by (intro power_increasing) auto
  finally have "take_bit k x < 2 ^ LENGTH(32)" by simp
  then show ?thesis by (simp only: unat_of_nat) simp
qed

lemma decode_symbol_table_entry:
  assumes "decode_symbol table table_bits s = Inr (entry, s')" and "table_bits \<le> 32"
  shows "entry = table_entry table table_bits (unat (bitbuf s))"
  using assms
  by (auto simp: decode_symbol_def table_entry_def bits_def remove_bits_def Let_def bnd_eq_Inr
      bits_index bits_value unat_drop_bit_eq split: if_splits)

section \<open>Example codes\<close>

lemma next_code_numeral: "next_code ls n (numeral k) = 2 * used_upto ls n (pred_numeral k)"
  by (simp add: numeral_eq_Suc next_code_Suc)

lemma next_code_1: "next_code ls n (Suc 0) = 0"
  using next_code_Suc [of ls n 0] by simp

lemma example_bl_count:
  "bl_count example_lens 4 l = (if l = 1 then 1 else if l = 2 then 1 else if l = 3 then 2 else 0)"
  by (simp add: bl_count_def example_lens_def upt_rec)

lemma example_used:
  "used_upto example_lens 4 (Suc 0) = 1" "used_upto example_lens 4 2 = 3" "used_upto example_lens 4 3 = 8"
  by (simp_all add: used_upto_def next_code_numeral next_code_1 example_bl_count)

lemma example_fits: "fits example_lens 4 3"
  unfolding fits_def
proof (intro allI impI)
  fix l :: nat assume "1 \<le> l \<and> l \<le> 3"
  then consider "l = 1" | "l = 2" | "l = 3" by linarith
  then show "used_upto example_lens 4 l \<le> 2 ^ l"
    by cases (simp_all add: example_used)
qed

lemma example_bounded: "\<forall>s<4. example_lens s \<le> 3"
  by (simp add: example_lens_def)

lemma example_decode: "canonical_decode example_lens 4 7 = Some 3"
  by (simp add: canonical_decode_def is_codeword_of_def codeword_def upt_rec example_lens_def
      next_code_numeral next_code_1 used_upto_def example_bl_count bit_numeral_simps
      bit_Suc_0_iff)

lemma example_results: "\<forall>s<4. (of_nat s :: u32) < 2 ^ 23"
proof (intro allI impI)
  fix s :: nat assume "s < 4"
  then consider "s = 0" | "s = 1" | "s = 2" | "s = 3" by linarith
  then show "(of_nat s :: u32) < 2 ^ 23" by cases simp_all
qed

lemma empty_fits: "fits (\<lambda>_. 0) 1 1"
  unfolding fits_def
proof (intro allI impI)
  fix l :: nat assume "1 \<le> l \<and> l \<le> 1"
  then have "l = 1" by linarith
  then show "used_upto (\<lambda>_. 0) 1 l \<le> 2 ^ l"
    by (simp add: used_upto_def next_code_1 bl_count_def)
qed

lemma empty_used: "used_upto (\<lambda>_. 0) 1 1 = 0"
  by (simp add: used_upto_def next_code_1 bl_count_def)

lemma single_bl_count: "bl_count (\<lambda>_. 1) 1 1 = 1"
  by (simp add: bl_count_def)

lemma single_used: "used_upto (\<lambda>_. 1) 1 1 = 1"
  by (simp add: used_upto_def next_code_1 bl_count_def)

lemma single_fits: "fits (\<lambda>_. 1) 1 1"
  unfolding fits_def
proof (intro allI impI)
  fix l :: nat assume "1 \<le> l \<and> l \<le> 1"
  then have "l = 1" by linarith
  then show "used_upto (\<lambda>_. 1) 1 l \<le> 2 ^ l" using single_used by simp
qed

lemma single_decode: "canonical_decode (\<lambda>_. 1) 1 1 = None"
  by (simp add: canonical_decode_def is_codeword_of_def codeword_def next_code_1 bit_Suc_0_iff)

section \<open>Windows that start with no codeword\<close>

lemma item_is_codeword:
  assumes it: "item ls n M l j" and m: "matches ls n w l j"
  shows "is_codeword_of ls n w (nth_sym ls n l j)"
proof -
  let ?s = "nth_sym ls n l j"
  have j: "j < bl_count ls n l" "1 \<le> l" using it by (auto simp: item_def)
  note p = nth_sym_props [OF j(1)]
  have cw: "codeword ls n ?s = next_code ls n l + j"
    using p(2,3) by (simp add: codeword_def)
  have r: "reverse_bits l w = next_code ls n l + j" using m by (simp add: matches_def)
  have "bit w i = bit (next_code ls n l + j) (l - 1 - i)" if "i < l" for i
  proof -
    have "bit (reverse_bits l w) (l - 1 - i) = bit w i"
      using that by (simp add: bit_reverse_bits)
    then show ?thesis using r by simp
  qed
  then show ?thesis
    using p(1,2) j(2) cw by (simp add: is_codeword_of_def list_all_iff)
qed

lemma item_decodes:
  assumes it: "item ls n M l j" and m: "matches ls n w l j"
  shows "\<exists>s. canonical_decode ls n w = Some s"
proof -
  have "nth_sym ls n l j < n" using it nth_sym_props(1) [of j ls n l] by (simp add: item_def)
  then have "\<exists>x. x \<in> set [0..<n] \<and> is_codeword_of ls n w x"
    using item_is_codeword [OF it m] by auto
  then have "canonical_decode ls n w \<noteq> None"
    unfolding canonical_decode_def find_None_iff by simp
  then show ?thesis by auto
qed

lemma complete_code_window:
  assumes cmp: "used_upto ls n M = 2 ^ M"
  shows "\<exists>l j. item ls n M l j \<and> matches ls n w l j"
proof -
  let ?X = "reverse_bits M w"
  have X: "?X < Ev ls n M M" using cmp reverse_bits_less [of M w] by (simp add: Ev_def)
  define l where "l = (LEAST l. ?X < Ev ls n M l)"
  have lX: "?X < Ev ls n M l" unfolding l_def using X by (rule LeastI)
  have lM: "l \<le> M" unfolding l_def using X by (rule Least_le)
  have "l \<noteq> 0"
  proof
    assume "l = 0"
    then show False using lX by (simp add: Ev_def)
  qed
  then obtain l0 where l0: "l = Suc l0" by (cases l) auto
  have "\<not> ?X < Ev ls n M l0"
    using not_less_Least [of l0 "\<lambda>l. ?X < Ev ls n M l"] l0 by (simp add: l_def)
  then have lo: "Wv ls n M l \<le> ?X" using l0 lM by (simp add: Wv_Suc)
  let ?P = "(2::nat) ^ (M - l)"
  define D where "D = ?X - Wv ls n M l"
  have XD: "?X = Wv ls n M l + D" using lo by (simp add: D_def)
  have E: "Ev ls n M l = Wv ls n M l + bl_count ls n l * ?P" using l0 by (simp add: Ev_eq)
  have D: "D < bl_count ls n l * ?P" using lX XD E by simp
  define j where "j = D div ?P"
  have j: "j < bl_count ls n l" unfolding j_def using D by (rule less_mult_imp_div_less)
  have it: "item ls n M l j" using l0 lM j by (simp add: item_def)
  have V: "Vv ls n M l j = Wv ls n M l + j * ?P" by (simp add: Vv_def Wv_def algebra_simps)
  have a: "j * ?P \<le> D" unfolding j_def by simp
  have b: "D < ?P + j * ?P" unfolding j_def by (rule dividend_less_div_times) simp
  have "Vv ls n M l j \<le> ?X \<and> ?X < Vv ls n M l j + ?P" using V XD a b by simp
  then have "matches ls n w l j" using matches_interval [OF lM, of ls n w j] by simp
  with it show ?thesis by blast
qed

lemma single_codeword_count:
  assumes par: "\<forall>s<n. ls s \<le> M" "1 \<le> M" and fit: "fits ls n M"
    and u: "used_upto ls n M = 2 ^ (M - 1)" and one: "bl_count ls n 1 = 1"
  shows "bl_count ls n 0 + 1 = n"
proof -
  have z: "\<forall>x. 1 < x \<longrightarrow> bl_count ls n x = 0"
    by (rule single_codeword_code [OF _ par fit u one]) simp
  have "offs ls n (Suc M) = offs ls n 2"
    using par(2) z by (intro offs_zero_counts) auto
  also have "\<dots> = offs ls n (Suc (Suc 0))" by (simp add: numeral_2_eq_2)
  also have "\<dots> = bl_count ls n 0 + bl_count ls n 1" by (simp add: offs_Suc offs_def)
  finally show ?thesis using offs_total [OF par(1)] one by simp
qed

lemma single_codeword_table:
  assumes par: "1 \<le> tb" "tb \<le> M" "M \<le> 15" "n < 65536" "\<forall>s<n. ls s \<le> M"
    and fit: "fits ls n M"
    and u: "used_upto ls n M = 2 ^ (M - 1)" and one: "bl_count ls n 1 = 1"
  shows "build_decode_table T0 ls n res tb M =
           Inr (True, fill_entries (sentinel_table T0 res tb) 0 (2 ^ tb) 1
                        (make_decode_table_entry (res (nth_sym ls n 1 0)) 1))"
proof -
  obtain off srt where ss: "sort_syms ls n (init_offsets (count_lens ls n) M) = (off, srt)"
    "off 0 = bl_count ls n 0"
    "\<forall>l j. j < bl_count ls n l \<longrightarrow> srt (offs ls n l + j) = nth_sym ls n l j"
    using sort_syms_result [OF par(5)] by blast
  note b0 = build_decode_table_unfold [OF ss(1), of T0 res tb]
  have cs: "check_codespace (bl_count ls n) 1 [1..<M + 1] =
     (if fits ls n M then Some (2 ^ M - int (used_upto ls n M)) else None)"
    using check_codespace_eq [of ls n M] by (simp add: count_lens_fun)
  note b = b0 [unfolded cs ss(2)]
  have M1: "1 \<le> M" using par by simp
  have half: "(2::int) ^ M - 2 ^ (M - Suc 0) = 2 ^ (M - Suc 0)"
  proof -
    have "(2::int) ^ M = 2 * 2 ^ (M - 1)" using M1 by (cases M) auto
    then show ?thesis by simp
  qed
  have cnt: "bl_count ls n 0 + 1 = n" by (rule single_codeword_count [OF par(5) M1 fit u one])
  have nl: "next_codeword_len M (bl_count ls n) 1 = Inr 1"
    using M1 one by (intro next_codeword_len_ok) auto
  have "offs ls n 1 = bl_count ls n 0" by (simp add: offs_def)
  then have s: "srt (bl_count ls n 0) = nth_sym ls n 1 0"
    using ss(3) [rule_format, of 0 1] one by simp
  let ?t = "sentinel_table T0 res tb"
  let ?st = "\<lparr>decode_table = ?t, len_counts = bl_count ls n, codeword_len = 1,
             codeword_reversed = 0, cur_codeword_prefix = 4294967295,
             cur_table_start = 0, cur_table_bits = tb, num_dropped_bits = 0\<rparr>"
  have o: "open_subtable tb M ?st = Inr ?st" using par(1) by (simp add: open_subtable_def)
  have f: "fill_table tb M res n srt (bl_count ls n 0) ?st =
             Inr (True, fill_entries ?t 0 (2 ^ tb) 1
                          (make_decode_table_entry (res (nth_sym ls n 1 0)) 1))"
    using cnt o s by (subst fill_table.simps) (simp add: Let_def put_codeword_def)
  have g: "bnd (next_codeword_len M (bl_count ls n) 1) (\<lambda>len.
              fill_table tb M res n srt (bl_count ls n 0)
                \<lparr>decode_table = ?t, len_counts = bl_count ls n, codeword_len = len,
                 codeword_reversed = 0, cur_codeword_prefix = 4294967295,
                 cur_table_start = 0, cur_table_bits = tb, num_dropped_bits = 0\<rparr>) =
           Inr (True, fill_entries ?t 0 (2 ^ tb) 1
                          (make_decode_table_entry (res (nth_sym ls n 1 0)) 1))"
    unfolding nl using f by simp
  have ne: "M - Suc 0 \<noteq> M" using M1 by simp
  show ?thesis
    using g fit u one ne by (simp add: b half)
qed

lemma default_entry:
  assumes par: "1 \<le> tb" "tb \<le> M" "M \<le> 15" "n < 65536" "\<forall>s<n. ls s \<le> M"
    and b: "build_decode_table T0 ls n res tb M = Inr (True, T)"
    and c: "canonical_decode ls n w = None"
  shows "remainder_after ls n M \<noteq> 0 \<and> T (take_bit tb w) = make_decode_table_entry (res 0) 1"
proof -
  note r = build_decode_table_result [OF par, of T0 res]
  have fit: "fits ls n M" by (rule accepted_table(1) [OF par b])
  have M1: "1 \<le> M" using par by simp
  have nm: "\<not> (item ls n M l j \<and> matches ls n w l j)" for l j
    using item_decodes [of ls n M l j w] c by auto
  have nc: "used_upto ls n M \<noteq> 2 ^ M"
    using complete_code_window [of ls n M w] nm by blast
  have ip: "(int u = 2 ^ k) = (u = 2 ^ k)" for u k :: nat
    using of_nat_eq_iff [of u "2 ^ k", where 'a = int] by simp
  have rem: "remainder_after ls n M \<noteq> 0"
    using nc ip [of "used_upto ls n M" M] by (simp add: remainder_after_eq)
  have q: "take_bit tb w < 2 ^ tb" by (rule take_bit_nat_less_exp)
  consider (e) "used_upto ls n M = 0"
    | (s) "used_upto ls n M = 2 ^ (M - 1)" "bl_count ls n 1 = 1"
    | (i) "used_upto ls n M \<noteq> 0" "\<not> (used_upto ls n M = 2 ^ (M - 1) \<and> bl_count ls n 1 = 1)"
    by blast
  then have "T (take_bit tb w) = make_decode_table_entry (res 0) 1"
  proof cases
    case e
    then have "T = sentinel_table T0 res tb" using r(2) [OF fit] b by simp
    then show ?thesis using q by (simp add: sentinel_table_def)
  next
    case s
    have T: "T = fill_entries (sentinel_table T0 res tb) (0 + 0) (0 + 2 ^ tb) 1
                   (make_decode_table_entry (res (nth_sym ls n 1 0)) 1)"
      using single_codeword_table [OF par fit s, of T0 res] b by simp
    have it: "item ls n M 1 0" using s(2) M1 by (simp add: item_def)
    have "take_bit 1 (take_bit tb w) \<noteq> 0"
    proof
      assume "take_bit 1 (take_bit tb w) = 0"
      then have "take_bit 1 w = 0" using par(1) by (simp add: min_def)
      then have "take_bit 1 w = reverse_bits 1 (next_code ls n 1 + 0)"
        by (simp add: next_code_1)
      then have "matches ls n w 1 0" using matches_take_bit [OF fit it, of w] by simp
      then show False using nm it by blast
    qed
    then show ?thesis
      unfolding T using q by (subst fill_entries_slots) (simp_all add: sentinel_table_def)
  next
    case i
    then show ?thesis using r(4) [OF fit] nc b by simp
  qed
  with rem show ?thesis by simp
qed

lemma decoded_entry:
  assumes par: "1 \<le> tb" "tb \<le> M" "M \<le> 15" "n < 65536" "\<forall>s<n. ls s \<le> M"
    and res: "\<forall>s<n. res s < 2 ^ 23"
    and b: "build_decode_table T0 ls n res tb M = Inr (True, T)"
    and c: "canonical_decode ls n w = Some s"
  shows "table_entry T tb w AND HUFFDEC_LENGTH_MASK =
           of_nat (if T (take_bit tb w) AND HUFFDEC_SUBTABLE_POINTER \<noteq> 0 then ls s - tb else ls s) \<and>
         drop_bit HUFFDEC_RESULT_SHIFT (table_entry T tb w) = res s \<and>
         ((T (take_bit tb w) AND HUFFDEC_SUBTABLE_POINTER \<noteq> 0) \<longleftrightarrow> tb < ls s)"
proof -
  have cw: "is_codeword_of ls n w s"
    using c by (auto simp: canonical_decode_def find_Some_iff)
  have fit: "fits ls n M" by (rule accepted_table(1) [OF par b])
  define j where "j = length (filter (\<lambda>s'. ls s' = ls s) [0..<s])"
  have it: "item ls n M (ls s) j" and m: "matches ls n w (ls s) j"
    and ns: "nth_sym ls n (ls s) j = s"
    using is_codeword_of_item [OF fit par(5) cw] by (simp_all add: j_def)
  have "table_ok ls n M tb res T"
    using accepted_table(2) [OF par b] item_used_pos [OF it] by simp
  then have e: "entry_ok ls n M tb res T w (ls s) j" using it m by (simp add: table_ok_def)
  have r: "res (nth_sym ls n (ls s) j) < 2 ^ 23"
    using res cw by (simp add: ns is_codeword_of_def)
  show ?thesis
    using table_entry_of_entry_ok [OF par(1,2,3) it r e] by (simp add: ns)
qed

section \<open>The decode table against the canonical code\<close>

text \<open>
  Claim C1, as the code has it. Let \<open>1 \<le> table_bits \<le> max_codeword_len \<le> 15\<close>, let there
  be fewer than \<open>2^16\<close> symbols, all of a length in \<open>[0, max_codeword_len]\<close>, and let every
  decode result be below \<open>2^23\<close> (as the results of the three codes are, so that it fits
  its field and stays clear of the subtable-pointer flag). Let \<^verbatim>\<open>build_decode_table\<close>
  accept the lengths (return true), and let \<open>w\<close> be any window of upcoming input bits.
  If \<open>w\<close> starts with the codeword of a symbol \<open>s\<close> of the canonical code, then the entry
  reached for \<open>w\<close> (the main-table entry at the low \<open>table_bits\<close> bits, or the subtable
  entry behind it when it carries the subtable-pointer flag) has in its LENGTH field the
  length of the codeword of \<open>s\<close>, less \<open>table_bits\<close> in a subtable, and as its result
  \<^verbatim>\<open>decode_results[s]\<close>; the main entry is a subtable pointer exactly when the codeword is
  longer than \<open>table_bits\<close>. If \<open>w\<close> starts with no codeword, then the code is incomplete
  (so every window of a complete code starts with a codeword), and the main-table entry
  at the index of \<open>w\<close> is the default entry, \<^verbatim>\<open>decode_results[0]\<close> with length 1.
\<close>

theorem table_entry_decodes:
  assumes par: "1 \<le> tb" "tb \<le> M" "M \<le> 15" "n < 65536" "\<forall>s<n. ls s \<le> M"
    and res: "\<forall>s<n. res s < 2 ^ 23"
    and b: "build_decode_table T0 ls n res tb M = Inr (True, T)"
  shows "case canonical_decode ls n w of
           Some s \<Rightarrow>
             table_entry T tb w AND HUFFDEC_LENGTH_MASK =
               of_nat (if T (take_bit tb w) AND HUFFDEC_SUBTABLE_POINTER \<noteq> 0
                       then ls s - tb else ls s) \<and>
             drop_bit HUFFDEC_RESULT_SHIFT (table_entry T tb w) = res s \<and>
             ((T (take_bit tb w) AND HUFFDEC_SUBTABLE_POINTER \<noteq> 0) \<longleftrightarrow> tb < ls s)
         | None \<Rightarrow>
             remainder_after ls n M \<noteq> 0 \<and>
             T (take_bit tb w) = make_decode_table_entry (res 0) 1"
proof (cases "canonical_decode ls n w")
  case None
  then show ?thesis using default_entry [OF par b] by simp
next
  case (Some s)
  then show ?thesis using decoded_entry [OF par res b] by simp
qed

text \<open>
  The claim as stated, for every accepted set of lengths and every table index, fails
  on the incomplete codes that are accepted. The empty code (one symbol, of length 0)
  is accepted, no window starts with a codeword, and yet the entry at index 0 is the
  default entry \<^verbatim>\<open>decode_results[0]\<close> with LENGTH 1.
\<close>

theorem empty_code_sentinel_counterexample:
  "build_decode_table (\<lambda>_. 0) (\<lambda>_. 0) 1 (\<lambda>_. 5) 1 1 =
     Inr (True, sentinel_table (\<lambda>_. 0) (\<lambda>_. 5) 1) \<and>
   canonical_decode (\<lambda>_. 0) 1 0 = None \<and>
   table_entry (sentinel_table (\<lambda>_. 0) (\<lambda>_. 5) 1) 1 0 AND HUFFDEC_LENGTH_MASK = 1"
proof -
  have par: "(1::nat) \<le> 1" "(1::nat) \<le> 15" "(1::nat) < 65536" "\<forall>s<(1::nat). (\<lambda>_. 0::nat) s \<le> 1"
    by simp_all
  have b: "build_decode_table (\<lambda>_. 0) (\<lambda>_. 0) 1 (\<lambda>_. 5) 1 1 =
             Inr (True, sentinel_table (\<lambda>_. 0) (\<lambda>_. 5) 1)"
    by (rule build_decode_table_result(2) [OF par(1) par(1) par(2) par(3) par(4) empty_fits empty_used])
  have c: "canonical_decode (\<lambda>_. 0) 1 0 = None"
    by (simp add: canonical_decode_def is_codeword_of_def)
  have t: "table_entry (sentinel_table (\<lambda>_. 0) (\<lambda>_. 5) 1) 1 0 AND HUFFDEC_LENGTH_MASK = 1"
    by (simp add: table_entry_def sentinel_table_def make_decode_table_entry_def
        HUFFDEC_RESULT_SHIFT_def HUFFDEC_SUBTABLE_POINTER_def HUFFDEC_LENGTH_MASK_def)
  show ?thesis using b c t by simp
qed

text \<open>
  The witness is the code of lengths 2, 1, 3, 3 with a main table of 2 bits: the window
  \<open>111\<close> is the codeword of symbol 3 and is decoded through a subtable, where one bit of
  the codeword remains. For the code of a single codeword of length 1, the window \<open>1\<close>
  starts with no codeword and reaches the default entry.
\<close>

theorem table_entry_decodes_witness:
  "(\<exists>T. build_decode_table (\<lambda>_. 0) example_lens 4 (\<lambda>s. of_nat s) 2 3 = Inr (True, T) \<and>
        table_entry T 2 7 AND HUFFDEC_LENGTH_MASK = 1 \<and>
        drop_bit HUFFDEC_RESULT_SHIFT (table_entry T 2 7) = 3 \<and>
        T (take_bit 2 7) AND HUFFDEC_SUBTABLE_POINTER \<noteq> 0) \<and>
   (\<exists>T. build_decode_table (\<lambda>_. 0) (\<lambda>_. 1) 1 (\<lambda>_. 5) 1 1 = Inr (True, T) \<and>
        T (take_bit 1 1) = make_decode_table_entry 5 1)"
proof -
  have par: "(1::nat) \<le> 2" "(2::nat) \<le> 3" "(3::nat) \<le> 15" "(4::nat) < 65536" by simp_all
  have u: "used_upto example_lens 4 3 = 2 ^ 3 \<or>
           (used_upto example_lens 4 3 = 2 ^ (3 - 1) \<and> bl_count example_lens 4 1 = 1)"
    by (simp add: example_used)
  obtain T where T: "build_decode_table (\<lambda>_. 0) example_lens 4 (\<lambda>s. of_nat s) 2 3 = Inr (True, T)"
    using build_decode_table_result(3) [OF par example_bounded example_fits u] by blast
  have l3: "example_lens 3 = 3" by (simp add: example_lens_def)
  have a: "table_entry T 2 7 AND HUFFDEC_LENGTH_MASK = 1 \<and>
        drop_bit HUFFDEC_RESULT_SHIFT (table_entry T 2 7) = 3 \<and>
        T (take_bit 2 7) AND HUFFDEC_SUBTABLE_POINTER \<noteq> 0"
    using table_entry_decodes [OF par example_bounded example_results T, of 7] l3
    by (simp add: example_decode)
  have par1: "(1::nat) \<le> 1" "(1::nat) \<le> 15" "(1::nat) < 65536"
    "\<forall>s<(1::nat). (\<lambda>_. 1::nat) s \<le> 1" "\<forall>s<(1::nat). (\<lambda>_. 5::u32) s < 2 ^ 23"
    by simp_all
  have u1: "used_upto (\<lambda>_. 1) 1 1 = 2 ^ 1 \<or>
            (used_upto (\<lambda>_. 1) 1 1 = 2 ^ (1 - 1) \<and> bl_count (\<lambda>_. 1) 1 1 = 1)"
    using single_used single_bl_count by simp
  obtain T1 where T1: "build_decode_table (\<lambda>_. 0) (\<lambda>_. 1) 1 (\<lambda>_. 5) 1 1 = Inr (True, T1)"
    using build_decode_table_result(3) [OF par1(1) par1(1) par1(2) par1(3) par1(4) single_fits u1]
    by blast
  have b: "T1 (take_bit 1 1) = make_decode_table_entry 5 1"
    using table_entry_decodes [OF par1(1) par1(1) par1(2) par1(3) par1(4) par1(5) T1, of 1]
      single_decode
    by simp
  show ?thesis using T a T1 b by blast
qed

section \<open>Which codes \<^verbatim>\<open>build_decode_table\<close> accepts\<close>

text \<open>
  Claim C6. Let \<open>1 \<le> table_bits \<le> max_codeword_len \<le> 15\<close> and let there be fewer than
  \<open>2^16\<close> symbols, all of a length in \<open>[0, max_codeword_len]\<close>. Then \<^verbatim>\<open>build_decode_table\<close>
  returns, and it returns true exactly for the accepted codes: it returns false exactly
  when the lengths over-subscribe the codespace (the remainder of the validation scan is
  negative at some length) or form an incomplete code that is neither empty nor a
  single codeword of length 1; every complete code is accepted. For the empty code
  (remainder \<open>2 ^ max_codeword_len\<close>) the table returned is the given one with the main
  table filled with the entry made of \<^verbatim>\<open>decode_results[0]\<close> and length 1.
\<close>

theorem build_decode_table_accepts:
  assumes par: "1 \<le> tb" "tb \<le> M" "M \<le> 15" "n < 65536" "\<forall>s<n. ls s \<le> M"
  shows "(\<exists>T. build_decode_table T0 ls n res tb M = Inr (accepted ls n M, T)) \<and>
         (remainder_after ls n M = 2 ^ M \<longrightarrow>
            build_decode_table T0 ls n res tb M = Inr (True, sentinel_table T0 res tb))"
proof -
  note r = build_decode_table_result [OF par, of T0 res]
  have M1: "1 \<le> M" using par by simp
  have ip: "(int u = 2 ^ k) = (u = 2 ^ k)" for u k :: nat
    using of_nat_eq_iff [of u "2 ^ k", where 'a = int] by simp
  have half: "(2::int) ^ M - 2 ^ (M - 1) = 2 ^ (M - 1)"
  proof -
    have "(2::int) ^ M = 2 * 2 ^ (M - 1)" using M1 by (cases M) auto
    then show ?thesis by simp
  qed
  let ?u = "used_upto ls n M"
  have r0: "(remainder_after ls n M = 0) = (?u = 2 ^ M)"
    using ip [of ?u M] by (simp add: remainder_after_eq) linarith
  have rM: "(remainder_after ls n M = 2 ^ M) = (?u = 0)" by (simp add: remainder_after_eq)
  have rh: "(remainder_after ls n M = 2 ^ (M - 1)) = (?u = 2 ^ (M - 1))"
    using ip [of ?u "M - 1"] half by (simp add: remainder_after_eq) linarith
  have acc: "accepted ls n M \<longleftrightarrow>
               fits ls n M \<and> (?u = 2 ^ M \<or> ?u = 0 \<or> (?u = 2 ^ (M - 1) \<and> bl_count ls n 1 = 1))"
    unfolding accepted_def over_subscribed_iff r0 rM rh by simp
  show ?thesis
  proof (cases "fits ls n M")
    case False
    then obtain l where l: "1 \<le> l" "l \<le> M" "2 ^ l < used_upto ls n l"
      by (auto simp: fits_def not_le)
    have "0 < Ev ls n M l" using l(3) by (simp add: Ev_def)
    also have "\<dots> \<le> Ev ls n M M" using l by (intro Ev_mono) auto
    finally have "?u \<noteq> 0" by (simp add: Ev_def)
    then show ?thesis using r(1) [OF False] False by (simp add: acc rM)
  next
    case True
    consider (e) "?u = 0" | (c) "?u = 2 ^ M \<or> (?u = 2 ^ (M - 1) \<and> bl_count ls n 1 = 1)"
      | (i) "?u \<noteq> 0" "?u \<noteq> 2 ^ M" "\<not> (?u = 2 ^ (M - 1) \<and> bl_count ls n 1 = 1)"
      by blast
    then show ?thesis
    proof cases
      case e
      then show ?thesis using r(2) [OF True e] True by (simp add: acc rM)
    next
      case c
      then have "?u \<noteq> 0" by auto
      then show ?thesis using r(3) [OF True c] True c by (auto simp: acc rM)
    next
      case i
      then show ?thesis using r(4) [OF True i] True by (simp add: acc rM)
    qed
  qed
qed

text \<open>
  The witness: the complete code of lengths 2, 1, 3, 3 is accepted, and so is the empty
  code, with the main table filled with the default entry.
\<close>

theorem build_decode_table_accepts_witness:
  "(\<exists>T. build_decode_table (\<lambda>_. 0) example_lens 4 (\<lambda>s. of_nat s) 2 3 = Inr (True, T)) \<and>
   build_decode_table (\<lambda>_. 0) (\<lambda>_. 0) 1 (\<lambda>_. 5) 1 1 = Inr (True, sentinel_table (\<lambda>_. 0) (\<lambda>_. 5) 1)"
proof -
  have par: "(1::nat) \<le> 2" "(2::nat) \<le> 3" "(3::nat) \<le> 15" "(4::nat) < 65536" by simp_all
  have a: "accepted example_lens 4 3"
    by (simp add: accepted_def over_subscribed_iff example_fits remainder_after_eq example_used)
  have par1: "(1::nat) \<le> 1" "(1::nat) \<le> 15" "(1::nat) < 65536" "\<forall>s<(1::nat). (\<lambda>_. 0::nat) s \<le> 1"
    by simp_all
  have r: "remainder_after (\<lambda>_. 0) 1 1 = 2 ^ 1"
    using empty_used by (simp add: remainder_after_eq)
  show ?thesis
    using build_decode_table_accepts [OF par example_bounded, of "\<lambda>_. 0" "\<lambda>s. of_nat s"] a
      build_decode_table_accepts [OF par1(1) par1(1) par1(2) par1(3) par1(4), of "\<lambda>_. 0" "\<lambda>_. 5"] r
    by simp
qed

section \<open>A block of the fixed Huffman codes\<close>

text \<open>
  The lengths that \<^verbatim>\<open>prepare_static\<close> writes, the two codes they make (both complete), and
  the run of the decompressor on a final fixed-Huffman block that holds only the
  end-of-block symbol.
\<close>

lemma fold_fill_range:
  "fold (\<lambda>i l. l(i := c)) [a..<b] f = (\<lambda>i. if a \<le> i \<and> i < b then c else f i)"
  by (induction b) (auto simp: fun_eq_iff)

lemma static_lens_eq:
  "static_lens l0 =
     (\<lambda>s. if 288 \<le> s \<and> s < 320 then 5 else if 280 \<le> s \<and> s < 288 then 8
          else if 256 \<le> s \<and> s < 280 then 7 else if 144 \<le> s \<and> s < 256 then 9
          else if s < 144 then 8 else l0 s)"
  unfolding static_lens_def fold_fill_range DEFLATE_NUM_LITLEN_SYMS_def DEFLATE_NUM_OFFSET_SYMS_def
  by (simp add: fun_eq_iff del: upt_rec_numeral)

lemma filter_const_range:
  assumes "\<forall>s. a \<le> s \<and> s < b \<longrightarrow> f s = c"
  shows "filter (\<lambda>s. f s = l) [a..<b] = (if c = l then [a..<b] else [])"
  using assms by (auto simp: filter_empty_conv filter_id_conv)

lemma upt_split: "a \<le> b \<Longrightarrow> b \<le> c \<Longrightarrow> [a..<c] = [a..<b] @ [b..<c]"
  by (metis le_Suc_ex upt_add_eq_append)

lemma litlen_syms_split: "[0..<288] = [0..<144] @ [144..<256] @ [256..<280] @ [280..<288]"
proof -
  have "[0..<288] = [0..<144] @ [144..<288]" by (rule upt_split) simp_all
  also have "[144..<288] = [144..<256] @ [256..<288]" by (rule upt_split) simp_all
  also have "[256..<288] = [256..<280] @ [280..<288]" by (rule upt_split) simp_all
  finally show ?thesis .
qed

lemma static_litlen_filter:
  "filter (\<lambda>s. static_lens l0 s = l) [0..<288] =
     (if l = 8 then [0..<144] else []) @ (if l = 9 then [144..<256] else []) @
     (if l = 7 then [256..<280] else []) @ (if l = 8 then [280..<288] else [])"
proof -
  have a: "filter (\<lambda>s. static_lens l0 s = l) [0..<144] = (if 8 = l then [0..<144] else [])"
    by (rule filter_const_range) (simp add: static_lens_eq)
  have b: "filter (\<lambda>s. static_lens l0 s = l) [144..<256] = (if 9 = l then [144..<256] else [])"
    by (rule filter_const_range) (simp add: static_lens_eq)
  have c: "filter (\<lambda>s. static_lens l0 s = l) [256..<280] = (if 7 = l then [256..<280] else [])"
    by (rule filter_const_range) (simp add: static_lens_eq)
  have d: "filter (\<lambda>s. static_lens l0 s = l) [280..<288] = (if 8 = l then [280..<288] else [])"
    by (rule filter_const_range) (simp add: static_lens_eq)
  show ?thesis unfolding litlen_syms_split filter_append a b c d
    by (simp del: upt_rec_numeral)
qed

lemma static_litlen_bl_count:
  "bl_count (static_lens l0) 288 l =
     (if l = 7 then 24 else if l = 8 then 152 else if l = 9 then 112 else 0)"
  by (simp add: bl_count_def static_litlen_filter del: upt_rec_numeral)

lemma static_offset_bl_count:
  "bl_count (\<lambda>i. static_lens l0 (288 + i)) 32 l = (if l = 5 then 32 else 0)"
proof -
  have "filter (\<lambda>s. static_lens l0 (288 + s) = l) [0..<32] = (if 5 = l then [0..<32] else [])"
    by (rule filter_const_range) (simp add: static_lens_eq)
  then show ?thesis by (simp add: bl_count_def del: upt_rec_numeral)
qed

lemma fits_0: "fits ls n 0"
  by (simp add: fits_def)

lemma fits_Suc: "fits ls n (Suc M) \<longleftrightarrow> fits ls n M \<and> used_upto ls n (Suc M) \<le> 2 ^ Suc M"
  unfolding fits_def by (auto simp: le_Suc_eq)

lemma fits_numeral:
  "fits ls n (numeral k) \<longleftrightarrow>
     fits ls n (pred_numeral k) \<and> used_upto ls n (numeral k) \<le> 2 ^ numeral k"
  using fits_Suc [of ls n "pred_numeral k"] by (simp add: numeral_eq_Suc)

lemma fits_1: "fits ls n (Suc 0) \<longleftrightarrow> used_upto ls n (Suc 0) \<le> 2"
  using fits_Suc [of ls n 0] by (simp add: fits_0)

lemma static_litlen_used:
  "used_upto (static_lens l0) 288 (Suc 0) = 0"
  "used_upto (static_lens l0) 288 2 = 0"
  "used_upto (static_lens l0) 288 3 = 0"
  "used_upto (static_lens l0) 288 4 = 0"
  "used_upto (static_lens l0) 288 5 = 0"
  "used_upto (static_lens l0) 288 6 = 0"
  "used_upto (static_lens l0) 288 7 = 24"
  "used_upto (static_lens l0) 288 8 = 200"
  "used_upto (static_lens l0) 288 9 = 512"
  "used_upto (static_lens l0) 288 10 = 1024"
  "used_upto (static_lens l0) 288 11 = 2048"
  "used_upto (static_lens l0) 288 12 = 4096"
  "used_upto (static_lens l0) 288 13 = 8192"
  "used_upto (static_lens l0) 288 14 = 16384"
  "used_upto (static_lens l0) 288 15 = 32768"
  by (simp_all add: used_upto_def next_code_numeral next_code_1 static_litlen_bl_count)

lemma static_litlen_fits: "fits (static_lens l0) 288 15"
  by (simp add: fits_numeral fits_1 static_litlen_used)

lemma static_offset_used:
  "used_upto (\<lambda>i. static_lens l0 (288 + i)) 32 (Suc 0) = 0"
  "used_upto (\<lambda>i. static_lens l0 (288 + i)) 32 2 = 0"
  "used_upto (\<lambda>i. static_lens l0 (288 + i)) 32 3 = 0"
  "used_upto (\<lambda>i. static_lens l0 (288 + i)) 32 4 = 0"
  "used_upto (\<lambda>i. static_lens l0 (288 + i)) 32 5 = 32"
  "used_upto (\<lambda>i. static_lens l0 (288 + i)) 32 6 = 64"
  "used_upto (\<lambda>i. static_lens l0 (288 + i)) 32 7 = 128"
  "used_upto (\<lambda>i. static_lens l0 (288 + i)) 32 8 = 256"
  "used_upto (\<lambda>i. static_lens l0 (288 + i)) 32 9 = 512"
  "used_upto (\<lambda>i. static_lens l0 (288 + i)) 32 10 = 1024"
  "used_upto (\<lambda>i. static_lens l0 (288 + i)) 32 11 = 2048"
  "used_upto (\<lambda>i. static_lens l0 (288 + i)) 32 12 = 4096"
  "used_upto (\<lambda>i. static_lens l0 (288 + i)) 32 13 = 8192"
  "used_upto (\<lambda>i. static_lens l0 (288 + i)) 32 14 = 16384"
  "used_upto (\<lambda>i. static_lens l0 (288 + i)) 32 15 = 32768"
  by (simp_all add: used_upto_def next_code_numeral next_code_1 static_offset_bl_count)

lemma static_offset_fits: "fits (\<lambda>i. static_lens l0 (288 + i)) 32 15"
  by (simp add: fits_numeral fits_1 static_offset_used)

lemma static_bounded:
  "\<forall>s<288. static_lens l0 s \<le> 15" "\<forall>s<32. static_lens l0 (288 + s) \<le> 15"
  by (simp_all add: static_lens_eq)

lemma static_eob_sym: "nth_sym (static_lens l0) 288 7 0 = 256"
  by (simp add: nth_sym_def static_litlen_filter del: upt_rec_numeral)

lemma eob_result: "litlen_decode_results ! 256 = 0"
  by (simp add: litlen_decode_results_def nth_append length_entry_def
      HUFFDEC_END_OF_BLOCK_LENGTH_def del: upt_rec_numeral)

lemma prepare_static_ok:
  "\<exists>d'. prepare_static d = Inr d' \<and> litlen_decode_table d' 0 = 7"
proof -
  let ?S = "static_lens (lens d)"
  let ?res = "\<lambda>s. litlen_decode_results ! s"
  have po: "(1::nat) \<le> 8" "(8::nat) \<le> 15" "(15::nat) \<le> 15" "(32::nat) < 65536" by simp_all
  have pl: "(1::nat) \<le> 10" "(10::nat) \<le> 15" "(288::nat) < 65536" by simp_all
  have uo: "used_upto (\<lambda>i. ?S (288 + i)) 32 15 = 2 ^ 15 \<or>
            (used_upto (\<lambda>i. ?S (288 + i)) 32 15 = 2 ^ (15 - 1) \<and>
             bl_count (\<lambda>i. ?S (288 + i)) 32 1 = 1)"
    by (simp add: static_offset_used)
  have ul: "used_upto ?S 288 15 = 2 ^ 15 \<or>
            (used_upto ?S 288 15 = 2 ^ (15 - 1) \<and> bl_count ?S 288 1 = 1)"
    by (simp add: static_litlen_used)
  obtain To where To: "build_decode_table (offset_decode_table d) (\<lambda>i. ?S (288 + i)) 32
                         (\<lambda>s. offset_decode_results ! s) 8 15 = Inr (True, To)"
    using build_decode_table_result(3) [OF po static_bounded(2) static_offset_fits uo] by blast
  obtain Tl where Tl: "build_decode_table (litlen_decode_table d) ?S 288 ?res 10 15 = Inr (True, Tl)"
    and ok: "table_ok ?S 288 15 10 ?res Tl"
    using build_decode_table_result(3) [OF pl(1,2) po(3) pl(3) static_bounded(1) static_litlen_fits ul]
    by blast
  have it: "item ?S 288 15 7 0" by (simp add: item_def static_litlen_bl_count)
  have nc: "next_code ?S 288 7 = 0" by (simp add: next_code_numeral static_litlen_used)
  have m: "matches ?S 288 0 7 0" by (simp add: matches_def nc)
  have "entry_ok ?S 288 15 10 ?res Tl 0 7 0" using ok it m by (simp add: table_ok_def)
  then have e: "Tl 0 = 7"
    by (simp add: entry_ok_def entry_of_def static_eob_sym eob_result make_decode_table_entry_def)
  have "prepare_static d = Inr (d\<lparr>lens := ?S, offset_decode_table := To, litlen_decode_table := Tl\<rparr>)"
    by (simp add: prepare_static_def build_offset_decode_table_def build_litlen_decode_table_def
        DEFLATE_NUM_LITLEN_SYMS_def DEFLATE_NUM_OFFSET_SYMS_def OFFSET_TABLEBITS_def
        LITLEN_TABLEBITS_def DEFLATE_MAX_OFFSET_CODEWORD_LEN_def
        DEFLATE_MAX_LITLEN_CODEWORD_LEN_def To Tl)
  then show ?thesis using e by simp
qed

lemma unat_minus_1_u32: "unat (- 1 :: u32) = 4294967295"
proof -
  have "(- 1 :: u32) = 4294967295" by simp
  then show ?thesis by (simp only: unat_numeral) simp
qed

lemma empty_static_block_run:
  "libdeflate_deflate_decompress (Suc n) d [0x03, 0x00] heap out_mem 0 a
     = Some (Inr (LIBDEFLATE_SUCCESS, out_mem, a))"
proof -
  obtain d' where d': "prepare_static d = Inr d'" "litlen_decode_table d' 0 = 7"
    using prepare_static_ok by blast
  show ?thesis
    by (simp add: block_header_simps d' decode_symbol_def DeflateWindow_init_def
        LITLEN_TABLEBITS_def DEFLATE_MAX_LITLEN_CODEWORD_LEN_def HUFFDEC_SUBTABLE_POINTER_def
        HUFFDEC_LENGTH_MASK_def HUFFDEC_RESULT_SHIFT_def HUFFDEC_LITERAL_def
        HUFFDEC_EXTRA_LENGTH_BITS_MASK_def HUFFDEC_LENGTH_BASE_SHIFT_def
        HUFFDEC_END_OF_BLOCK_LENGTH_def bitbuf_max_ensure_def available_def
        notify_end_block_def full_flush_def window_size_def memcpy_def Let_def
        unat_minus_1_u32)
qed

section \<open>The returned status and \<^verbatim>\<open>actual_out_nbytes_ret\<close>\<close>

text \<open>
  Claim C8. Whenever \<^verbatim>\<open>libdeflate_deflate_decompress\<close> returns to its caller (the model
  yields a status, not an abort), the status is \<^verbatim>\<open>LIBDEFLATE_SUCCESS\<close>: the only
  \<^verbatim>\<open>return\<close> of the function returns it, after the final flush.
\<close>

theorem returned_status_is_success:
  assumes "libdeflate_deflate_decompress fuel d input heap out_mem out_nbytes_avail actual_out
             = Some (Inr (status, out_mem', actual_out'))"
  shows "status = LIBDEFLATE_SUCCESS"
  using assms
  by (auto simp: libdeflate_deflate_decompress_def Let_def bnd_eq_Inr
      split: option.splits sum.splits)

text \<open>
  The witness is a call that returns: the input \<^verbatim>\<open>03 00\<close>, a final fixed-Huffman block that
  holds only the end-of-block symbol, with an empty output buffer.
\<close>

theorem returned_status_is_success_witness:
  "\<exists>status out_mem' actual_out'.
     libdeflate_deflate_decompress (Suc 0)
       \<lparr>precode_lens = \<lambda>_. 0, lens = \<lambda>_. 0, precode_decode_table = \<lambda>_. 0,
        litlen_decode_table = \<lambda>_. 0, offset_decode_table = \<lambda>_. 0\<rparr>
       [0x03, 0x00] (\<lambda>_. 0) (\<lambda>_. 0) 0 None = Some (Inr (status, out_mem', actual_out')) \<and>
     status = LIBDEFLATE_SUCCESS"
proof -
  let ?d = "\<lparr>precode_lens = \<lambda>_. 0, lens = \<lambda>_. 0, precode_decode_table = \<lambda>_. 0,
        litlen_decode_table = \<lambda>_. 0, offset_decode_table = \<lambda>_. 0\<rparr>"
  obtain r where r: "libdeflate_deflate_decompress (Suc 0) ?d [0x03, 0x00] (\<lambda>_. 0) (\<lambda>_. 0) 0 None
                       = Some (Inr r)"
    using empty_static_block_run [of 0 ?d "\<lambda>_. 0" "\<lambda>_. 0" None] by simp
  obtain st m a where "r = (st, m, a)" by (cases r)
  with r have e: "libdeflate_deflate_decompress (Suc 0) ?d [0x03, 0x00] (\<lambda>_. 0) (\<lambda>_. 0) 0 None
                    = Some (Inr (st, m, a))" by simp
  from returned_status_is_success [OF e] e show ?thesis by blast
qed

text \<open>The object behind \<^verbatim>\<open>actual_out_nbytes_ret\<close> is the same after every call that returns.\<close>

lemma actual_out_unchanged:
  assumes "libdeflate_deflate_decompress fuel d input heap out_mem out_nbytes_avail actual_out
             = Some (Inr (status, out_mem', actual_out'))"
  shows "actual_out' = actual_out"
  using assms
  by (auto simp: libdeflate_deflate_decompress_def Let_def bnd_eq_Inr
      split: option.splits sum.splits)

text \<open>
  Claim C5 does not hold of the code: \<^verbatim>\<open>libdeflate_deflate_decompress\<close> never writes
  through \<^verbatim>\<open>actual_out_nbytes_ret\<close>. On the input \<^verbatim>\<open>03 00\<close> (a final fixed-Huffman block
  that holds only the end-of-block symbol), with an empty output buffer and the object
  behind the pointer holding 7, the call returns \<^verbatim>\<open>LIBDEFLATE_SUCCESS\<close>, and the object
  still holds 7, not the number 0 of output bytes produced.
\<close>

theorem actual_out_is_not_written:
  "libdeflate_deflate_decompress (Suc n) d [0x03, 0x00] heap out_mem 0 (Some 7)
     = Some (Inr (LIBDEFLATE_SUCCESS, out_mem, Some 7))"
  by (rule empty_static_block_run)

end
